theory Spec2Isabelle
  imports Main
begin

section \<open>Machine integers\<close>

text \<open>
  The C code works on \<^verbatim>\<open>uint8_t\<close>, \<^verbatim>\<open>uint32_t\<close>, \<^verbatim>\<open>uint64_t\<close>, \<^verbatim>\<open>int32_t\<close> and
  \<^verbatim>\<open>int64_t\<close>. They are modelled as mathematical integers with the wrap-around of every
  conversion and every arithmetic operation written out: \<open>u32\<close> is the conversion to
  \<^verbatim>\<open>uint32_t\<close>, \<open>s64\<close> the conversion to \<^verbatim>\<open>int64_t\<close> (two's complement), and so on. An
  arithmetic right shift by 32 of a signed value is \<open>div 2 ^ 32\<close> (rounding down).
\<close>

definition u8 :: "int \<Rightarrow> int" where
  "u8 x = x mod 2 ^ 8"

definition u32 :: "int \<Rightarrow> int" where
  "u32 x = x mod 2 ^ 32"

definition u64 :: "int \<Rightarrow> int" where
  "u64 x = x mod 2 ^ 64"

definition s32 :: "int \<Rightarrow> int" where
  "s32 x = (x + 2 ^ 31) mod 2 ^ 32 - 2 ^ 31"

definition s64 :: "int \<Rightarrow> int" where
  "s64 x = (x + 2 ^ 63) mod 2 ^ 64 - 2 ^ 63"

section \<open>Big numbers\<close>

text \<open>
  A \<^verbatim>\<open>bigval_t\<close> is an array \<^verbatim>\<open>data[BIGLEN]\<close> of 32-bit unsigned words, least significant
  word first, read as one two's complement number; \<^verbatim>\<open>BIGLEN\<close> is 9 and \<^verbatim>\<open>MSW\<close>, the
  index of the most significant word, is 8. The array is a list of nine integers, each in
  the range of a \<^verbatim>\<open>uint32_t\<close>; \<open>bigval_ok\<close> says that a list is such an array.
\<close>

type_synonym bigval = "int list"

abbreviation BIGLEN :: nat where
  "BIGLEN \<equiv> 9"

abbreviation MSW :: nat where
  "MSW \<equiv> 8"

definition bigval_ok :: "bigval \<Rightarrow> bool" where
  "bigval_ok a \<longleftrightarrow> length a = BIGLEN \<and> list_all (\<lambda>x. 0 \<le> x \<and> x < 2 ^ 32) a"

text \<open>The number a word list stands for: unsigned, and as two's complement on 288 bits.\<close>

fun big_uval :: "int list \<Rightarrow> int" where
  "big_uval [] = 0"
| "big_uval (x # xs) = x + 2 ^ 32 * big_uval xs"

definition big_val :: "bigval \<Rightarrow> int" where
  "big_val a = (if big_uval a < 2 ^ 287 then big_uval a else big_uval a - 2 ^ 288)"

text \<open>
  The constants of \<^verbatim>\<open>CryptoECCMath.h\<close>. The curve is NIST P-256: \<open>modulusP\<close> is the prime
  \<open>2^256 - 2^224 + 2^192 + 2^96 - 1\<close>, the number whose multiples \<^verbatim>\<open>big_adjustP\<close> adds, and
  \<open>orderP\<close> is the order of the curve, the number that \<^verbatim>\<open>orderDBL256\<close> holds in signed
  digits.
\<close>

definition big_zero :: bigval where
  "big_zero = [0, 0, 0, 0, 0, 0, 0, 0, 0]"

definition big_one :: bigval where
  "big_one = [1, 0, 0, 0, 0, 0, 0, 0, 0]"

definition modulusP :: bigval where
  "modulusP = [0xffffffff, 0xffffffff, 0xffffffff, 0x00000000,
               0x00000000, 0x00000000, 0x00000001, 0xffffffff, 0x00000000]"

definition orderP :: bigval where
  "orderP = [0xfc632551, 0xf3b9cac2, 0xa7179e84, 0xbce6faad,
             0xffffffff, 0xffffffff, 0x00000000, 0xffffffff, 0x00000000]"

definition orderDBL :: "int list" where
  "orderDBL = [0xfc632551 - 0x100000000,
               0xf3b9cac2 - 0x100000000 + 1,
               0xa7179e84 - 0x100000000 + 1,
               0xbce6faad - 0x100000000 + 1,
               0xffffffff - 0x100000000 + 1,
               0xffffffff - 0x100000000 + 1,
               0x00000000 + 0x1,
               0xffffffff - 0x100000000,
               0x00000000 + 1]"

definition p256 :: int where
  "p256 = 2 ^ 256 - 2 ^ 224 + 2 ^ 192 + 2 ^ 96 - 1"

definition n256 :: int where
  "n256 = 0xffffffff00000000ffffffffffffffffbce6faada7179e84f3b9cac2fc632551"

text \<open>
  A \<^verbatim>\<open>bigval_t const* modulus\<close> argument. \<^verbatim>\<open>big_precise_reduce\<close> compares the pointer with
  \<^verbatim>\<open>&modulusP\<close>, so the model keeps apart the object \<^verbatim>\<open>modulusP\<close> and any other object,
  which is given by its contents.
\<close>

datatype modulus_ref = ModulusP_ref | Other_ref bigval

fun deref :: "modulus_ref \<Rightarrow> bigval" where
  "deref ModulusP_ref = modulusP"
| "deref (Other_ref m) = m"

definition OrderP_ref :: modulus_ref where
  "OrderP_ref = Other_ref orderP"

text \<open>The macros \<^verbatim>\<open>big_is_negative\<close> (sign bit of the most significant word) and \<^verbatim>\<open>big_is_odd\<close>.\<close>

definition big_is_negative :: "bigval \<Rightarrow> bool" where
  "big_is_negative a \<longleftrightarrow> s32 (a ! MSW) < 0"

definition big_is_odd :: "bigval \<Rightarrow> bool" where
  "big_is_odd a \<longleftrightarrow> (a ! 0) mod 2 \<noteq> 0"

subsection \<open>Addition, subtraction, multiples of the modulus\<close>

text \<open>
  \<^verbatim>\<open>RDCSTEP(i, adj)\<close> of \<^verbatim>\<open>big_adjustP\<close>: the running \<^verbatim>\<open>int64_t w\<close> takes word \<open>i\<close> and the
  adjustment, its low 32 bits are stored and it is shifted right arithmetically.
\<close>

definition RDCSTEP :: "int \<Rightarrow> int \<Rightarrow> int \<Rightarrow> int \<times> int" where
  "RDCSTEP w ai adj =
     (let w1 = s64 (w + ai);
          w2 = s64 (w1 + adj)
      in (u32 (s32 w2), w2 div 2 ^ 32))"

definition big_adjustP :: "bigval \<Rightarrow> int \<Rightarrow> bigval" where
  "big_adjustP a k =
     (if k \<noteq> 0 then
        (let (t0, w0) = RDCSTEP 0 (a ! 0) (s64 (- k));
             (t1, w1) = RDCSTEP w0 (a ! 1) 0;
             (t2, w2) = RDCSTEP w1 (a ! 2) 0;
             (t3, w3) = RDCSTEP w2 (a ! 3) k;
             (t4, w4) = RDCSTEP w3 (a ! 4) 0;
             (t5, w5) = RDCSTEP w4 (a ! 5) 0;
             (t6, w6) = RDCSTEP w5 (a ! 6) k;
             (t7, w7) = RDCSTEP w6 (a ! 7) (s64 (- k));
             (t8, w8) = RDCSTEP w7 (a ! 8) k
         in [t0, t1, t2, t3, t4, t5, t6, t7, t8])
      else a)"

text \<open>\<^verbatim>\<open>big_approx_reduceP(tgt, src)\<close> is \<^verbatim>\<open>big_adjustP(tgt, src, -(int64_t)(int32_t)src->data[MSW])\<close>.\<close>

definition big_approx_reduceP :: "bigval \<Rightarrow> bigval" where
  "big_approx_reduceP src = big_adjustP src (s64 (- s32 (src ! MSW)))"

text \<open>
  The loops of \<^verbatim>\<open>big_1wd_mpy\<close>, \<^verbatim>\<open>big_add\<close>, \<^verbatim>\<open>big_sub\<close> and \<^verbatim>\<open>big_triple\<close> visit the words
  from index 0 upwards and carry a 64-bit accumulator; each is a recursion over the words.
\<close>

fun big_1wd_mpy_loop :: "int \<Rightarrow> int \<Rightarrow> int list \<Rightarrow> int list" where
  "big_1wd_mpy_loop k w [] = []"
| "big_1wd_mpy_loop k w (aj # as) =
     (let prod = s64 (k * aj);
          tmp = s64 (w + prod);
          tj = u32 tmp;
          w' = s64 (tmp - tj)
      in tj # big_1wd_mpy_loop k (w' div 2 ^ 32) as)"

definition big_1wd_mpy :: "bigval \<Rightarrow> int \<Rightarrow> bigval" where
  "big_1wd_mpy a k = big_1wd_mpy_loop k 0 a"

fun big_add_loop :: "int \<Rightarrow> int list \<Rightarrow> int list \<Rightarrow> int list" where
  "big_add_loop v (ai # as) (bi # bs) =
     (let v1 = u64 (v + ai);
          v2 = u64 (v1 + bi)
      in u32 v2 # big_add_loop (v2 div 2 ^ 32) as bs)"
| "big_add_loop v _ _ = []"

definition big_add :: "bigval \<Rightarrow> bigval \<Rightarrow> bigval" where
  "big_add a b = big_add_loop 0 a b"

definition big_addP :: "bigval \<Rightarrow> bigval \<Rightarrow> bigval" where
  "big_addP a b = big_approx_reduceP (big_add a b)"

text \<open>The one's complement \<^verbatim>\<open>~b->data[i]\<close> of a 32-bit word is \<open>u32 (- bi - 1)\<close>.\<close>

fun big_sub_loop :: "int \<Rightarrow> int list \<Rightarrow> int list \<Rightarrow> int list" where
  "big_sub_loop v (ai # as) (bi # bs) =
     (let v1 = u64 (v + ai);
          v2 = u64 (v1 + u64 (u32 (- bi - 1)))
      in u32 v2 # big_sub_loop (v2 div 2 ^ 32) as bs)"
| "big_sub_loop v _ _ = []"

definition big_sub :: "bigval \<Rightarrow> bigval \<Rightarrow> bigval" where
  "big_sub a b = big_sub_loop 1 a b"

definition big_subP :: "bigval \<Rightarrow> bigval \<Rightarrow> bigval" where
  "big_subP a b = big_approx_reduceP (big_sub a b)"

fun big_triple_loop :: "int \<Rightarrow> int list \<Rightarrow> int list" where
  "big_triple_loop accum [] = []"
| "big_triple_loop accum (ai # as) =
     (let a1 = u64 (accum + ai);
          a2 = u64 (a1 + ai);
          a3 = u64 (a2 + ai)
      in u32 a3 # big_triple_loop (a3 div 2 ^ 32) as)"

definition big_triple :: "bigval \<Rightarrow> bigval" where
  "big_triple a = big_triple_loop 0 a"

subsection \<open>Comparison, tests, halving\<close>

text \<open>
  \<^verbatim>\<open>big_cmp\<close>: the most significant words are compared as \<^verbatim>\<open>int32_t\<close>, then the loop runs
  from index \<open>MSW - 1\<close> down to 0 over unsigned words.
\<close>

fun big_cmp_loop :: "int list \<Rightarrow> int list \<Rightarrow> int" where
  "big_cmp_loop (ai # as) (bi # bs) =
     (if ai > bi then 1 else if ai < bi then - 1 else big_cmp_loop as bs)"
| "big_cmp_loop _ _ = 0"

definition big_cmp :: "bigval \<Rightarrow> bigval \<Rightarrow> int" where
  "big_cmp a b =
     (if s32 (a ! MSW) > s32 (b ! MSW) then 1
      else if s32 (a ! MSW) < s32 (b ! MSW) then - 1
      else big_cmp_loop (rev (take MSW a)) (rev (take MSW b)))"

fun big_is_zero :: "bigval \<Rightarrow> bool" where
  "big_is_zero [] = True"
| "big_is_zero (ai # as) = (if ai \<noteq> 0 then False else big_is_zero as)"

definition big_is_one :: "bigval \<Rightarrow> bool" where
  "big_is_one a = (if a ! 0 \<noteq> 1 then False else big_is_zero (drop 1 a))"

text \<open>
  \<^verbatim>\<open>big_halve\<close>: the most significant word is shifted as \<^verbatim>\<open>int32_t\<close>; the loop then runs
  from index \<open>MSW - 1\<close> down to 0 and moves the bit shifted out of one word into the top of
  the next lower word.
\<close>

fun big_halve_loop :: "int \<Rightarrow> int list \<Rightarrow> int list" where
  "big_halve_loop shiftval [] = []"
| "big_halve_loop shiftval (ai # as) =
     or (ai div 2) (u32 (shiftval * 2 ^ 31)) # big_halve_loop (ai mod 2) as"

definition big_halve :: "bigval \<Rightarrow> bigval" where
  "big_halve a =
     rev (big_halve_loop (a ! MSW mod 2) (rev (take MSW a))) @ [u32 (s32 (a ! MSW) div 2)]"

definition big_halveP :: "bigval \<Rightarrow> bigval" where
  "big_halveP a = (if a ! 0 mod 2 \<noteq> 0 then big_halve (big_adjustP a 1) else big_halve a)"

subsection \<open>Exact reduction\<close>

text \<open>
  \<^verbatim>\<open>big_precise_reduce\<close> runs three \<^verbatim>\<open>while\<close> loops one after the other. In the C code
  \<^verbatim>\<open>src\<close> points to the current value, which is \<open>a\<close> at first and \<open>tgt\<close> after the first
  store; in the model each loop passes the current value on. A loop that does not end has
  no result (\<open>None\<close>).
\<close>

partial_function (option) reduce_msw_loop :: "modulus_ref \<Rightarrow> bigval \<Rightarrow> bigval option" where
  "reduce_msw_loop modulus src =
     (if s32 (src ! MSW) \<noteq> 0 then
        (case modulus of
           Other_ref m \<Rightarrow>
             reduce_msw_loop modulus (big_sub src (big_1wd_mpy m (s32 (src ! MSW))))
         | ModulusP_ref \<Rightarrow>
             reduce_msw_loop modulus (big_adjustP src (s64 (- s32 (src ! MSW)))))
      else Some src)"

partial_function (option) reduce_sub_loop :: "bigval \<Rightarrow> bigval \<Rightarrow> bigval option" where
  "reduce_sub_loop modulus src =
     (if big_cmp src modulus \<ge> 0 then reduce_sub_loop modulus (big_sub src modulus)
      else Some src)"

partial_function (option) reduce_add_loop :: "bigval \<Rightarrow> bigval \<Rightarrow> bigval option" where
  "reduce_add_loop modulus src =
     (if s32 (src ! MSW) < 0 then reduce_add_loop modulus (big_add src modulus)
      else Some src)"

declare reduce_msw_loop.simps [code]
declare reduce_sub_loop.simps [code]
declare reduce_add_loop.simps [code]

definition big_precise_reduce :: "bigval \<Rightarrow> modulus_ref \<Rightarrow> bigval option" where
  "big_precise_reduce a modulus =
     Option.bind (reduce_msw_loop modulus a) (\<lambda>s1.
     Option.bind (reduce_sub_loop (deref modulus) s1) (\<lambda>s2.
     reduce_add_loop (deref modulus) s2))"

subsection \<open>Multiplication\<close>

text \<open>
  \<^verbatim>\<open>mpy_accum\<close> adds the 64-bit product of two words to the pair \<^verbatim>\<open>(cum_carry, u_accum)\<close>: the
  sum wraps at 64 bits and a wrap is counted in \<^verbatim>\<open>cum_carry\<close>. \<^verbatim>\<open>mpy_accum_dbl\<close> adds the
  product twice. The state is the pair \<open>(cum_carry, u_accum)\<close>.
\<close>

definition mpy_accum :: "int \<times> int \<Rightarrow> int \<Rightarrow> int \<Rightarrow> int \<times> int" where
  "mpy_accum st a b =
     (let cumcarry = fst st;
          product = u64 (u64 a * u64 b);
          lsum = u64 (snd st + product);
          cumcarry = (if lsum < product then s32 (cumcarry + 1) else cumcarry)
      in (cumcarry, lsum))"

definition mpy_accum_dbl :: "int \<times> int \<Rightarrow> int \<Rightarrow> int \<Rightarrow> int \<times> int" where
  "mpy_accum_dbl st a b =
     (let cumcarry = fst st;
          product = u64 (u64 a * u64 b);
          lsum = u64 (snd st + product);
          cumcarry = (if lsum < product then s32 (cumcarry + 1) else cumcarry);
          lsum = u64 (lsum + product);
          cumcarry = (if lsum < product then s32 (cumcarry + 1) else cumcarry)
      in (cumcarry, lsum))"

text \<open>
  The unrolled inner loop: \<^verbatim>\<open>switch (8 - (maxj - minj))\<close> enters at one of the labels
  \<^verbatim>\<open>case 0\<close> to \<^verbatim>\<open>case 8\<close> and falls through to the end, so that with \<open>d = maxj - minj\<close> it
  runs \<^verbatim>\<open>ACCUM(ap - d, bp + d)\<close>, \<dots>, \<^verbatim>\<open>ACCUM(ap - 0, bp + 0)\<close>, and nothing at all when the
  selector is outside 0 to 8. \<open>ap\<close> and \<open>bp\<close> are the indices that the two pointers stand at.
\<close>

fun ACCUM_from :: "nat \<Rightarrow> int \<times> int \<Rightarrow> bigval \<Rightarrow> bigval \<Rightarrow> nat \<Rightarrow> nat \<Rightarrow> int \<times> int" where
  "ACCUM_from 0 st a b ap bp = mpy_accum st (a ! ap) (b ! bp)"
| "ACCUM_from (Suc d) st a b ap bp =
     ACCUM_from d (mpy_accum st (a ! (ap - Suc d)) (b ! (bp + Suc d))) a b ap bp"

definition ACCUM_switch :: "int \<Rightarrow> int \<times> int \<Rightarrow> bigval \<Rightarrow> bigval \<Rightarrow> nat \<Rightarrow> nat \<Rightarrow> int \<times> int" where
  "ACCUM_switch sel st a b ap bp =
     (if 0 \<le> sel \<and> sel \<le> 8 then ACCUM_from (nat (8 - sel)) st a b ap bp else st)"

fun ACCUMDBL_from :: "nat \<Rightarrow> int \<times> int \<Rightarrow> bigval \<Rightarrow> bigval \<Rightarrow> nat \<Rightarrow> nat \<Rightarrow> int \<times> int" where
  "ACCUMDBL_from 0 st a b ap bp = mpy_accum_dbl st (a ! ap) (b ! bp)"
| "ACCUMDBL_from (Suc d) st a b ap bp =
     ACCUMDBL_from d (mpy_accum_dbl st (a ! (ap - Suc d)) (b ! (bp + Suc d))) a b ap bp"

definition ACCUMDBL_switch :: "int \<Rightarrow> int \<times> int \<Rightarrow> bigval \<Rightarrow> bigval \<Rightarrow> nat \<Rightarrow> nat \<Rightarrow> int \<times> int" where
  "ACCUMDBL_switch sel st a b ap bp =
     (if 0 \<le> sel \<and> sel \<le> 8 then ACCUMDBL_from (nat (8 - sel)) st a b ap bp else st)"

text \<open>The length of an operand: \<^verbatim>\<open>while (n > 1 && a->data[n - 1] == 0) --n\<close>, from \<open>BIGLEN\<close>.\<close>

fun count_words :: "bigval \<Rightarrow> nat \<Rightarrow> nat" where
  "count_words a n = (if n > 1 \<and> a ! (n - 1) = 0 then count_words a (n - 1) else n)"

declare count_words.simps [simp del]

text \<open>
  The state of the outer loops is \<open>(w, cum_carry, u_accum)\<close>, with \<open>w\<close> the array
  \<^verbatim>\<open>int64_t w[2 * BIGLEN]\<close>. One step of the loop over the output words \<open>i\<close>, for the normal
  multiplication and for the squaring. The mask \<^verbatim>\<open>& 0xffffffffULL\<close> is \<open>mod 2 ^ 32\<close>, the
  test \<^verbatim>\<open>(i & 1) == 0\<close> is \<open>i mod 2 = 0\<close>, and \<^verbatim>\<open>(i - 1) >> 1\<close> is \<open>(i - 1) div 2\<close>, rounded
  down.
\<close>

definition carry_out :: "int list \<times> int \<times> int \<Rightarrow> nat \<Rightarrow> int list \<times> int \<times> int" where
  "carry_out st i =
     (let w = fst st; cum_carry = fst (snd st); u_accum = snd (snd st)
      in (w[i := u_accum mod 2 ^ 32],
          0,
          u64 (u_accum div 2 ^ 32 + u64 (u64 cum_carry * 2 ^ 32))))"

definition mpy_column :: "bigval \<Rightarrow> bigval \<Rightarrow> int \<Rightarrow> int \<Rightarrow> int list \<times> int \<times> int \<Rightarrow> nat
    \<Rightarrow> int list \<times> int \<times> int" where
  "mpy_column a b a_words b_words st i =
     (let maxj = min (b_words - 1) (int i);
          minj = max 0 (int i - a_words + 1);
          acc = ACCUM_switch (8 - (maxj - minj)) (snd st) a b (nat (int i - minj)) (nat minj)
      in carry_out (fst st, acc) i)"

definition sqr_column :: "bigval \<Rightarrow> int \<Rightarrow> int list \<times> int \<times> int \<Rightarrow> nat
    \<Rightarrow> int list \<times> int \<times> int" where
  "sqr_column a a_words st i =
     (let maxj = min (a_words - 1) (int i);
          maxj = min maxj ((int i - 1) div 2);
          minj = max 0 (int i - a_words + 1);
          acc = ACCUMDBL_switch (8 - (maxj - minj)) (snd st) a a (nat (int i - minj)) (nat minj);
          acc = (if i mod 2 = 0 then mpy_accum acc (a ! nat (maxj + 1)) (a ! nat (maxj + 1)) else acc)
      in carry_out (fst st, acc) i)"

text \<open>\<^verbatim>\<open>for (; i < 2 * BIGLEN - 1; ++i) { w[i] = u_accum & 0xffffffffULL; u_accum >>= 32; }\<close>\<close>

definition residual_out :: "int list \<times> int \<times> int \<Rightarrow> nat \<Rightarrow> int list \<times> int \<times> int" where
  "residual_out st i =
     (let w = fst st; cum_carry = fst (snd st); u_accum = snd (snd st)
      in (w[i := u_accum mod 2 ^ 32], cum_carry, u_accum div 2 ^ 32))"

text \<open>
  The unsigned product in \<open>w\<close>. \<open>same\<close> says that the arguments \<open>a\<close> and \<open>b\<close> of the C
  function are the same object (\<^verbatim>\<open>a == b\<close>), which selects the squaring loop. Every element
  of \<open>w\<close> is stored before it is read, so the array starts as zeros here.
\<close>

definition mpy_unsigned :: "bool \<Rightarrow> bigval \<Rightarrow> bigval \<Rightarrow> int list" where
  "mpy_unsigned same a b =
     (let a_words = count_words a BIGLEN;
          w = replicate (2 * BIGLEN) 0;
          (n, st) =
            (if \<not> same then
               (let b_words = count_words b BIGLEN;
                    n = a_words + b_words - 1
                in (n, foldl (mpy_column a b (int a_words) (int b_words)) (w, 0, 0) [0..<n]))
             else
               (let n = 2 * a_words - 1
                in (n, foldl (sqr_column a (int a_words)) (w, 0, 0) [0..<n])));
          st = foldl residual_out st [n..<2 * BIGLEN - 1];
          w = fst st; u_accum = snd (snd st)
      in w[2 * BIGLEN - 1 := s64 u_accum])"

text \<open>The corrections for negative arguments.\<close>

definition sub_words :: "int list \<Rightarrow> bigval \<Rightarrow> int list" where
  "sub_words w b = foldl (\<lambda>w i. w[i + BIGLEN := s64 (w ! (i + BIGLEN) - b ! i)]) w [0..<BIGLEN]"

definition mpy_signed :: "int list \<Rightarrow> bigval \<Rightarrow> bigval \<Rightarrow> int list" where
  "mpy_signed w a b =
     (let w = (if big_is_negative a then sub_words w b else w);
          w = (if big_is_negative b then
                 (let w = sub_words w a
                  in if big_is_negative a
                     then w[2 * BIGLEN - 1 := s64 (u64 (u64 (w ! (2 * BIGLEN - 1)) + 2 ^ 32))]
                     else w)
               else w)
      in w)"

text \<open>
  The reduction modulo the curve modulus: for \<open>i\<close> from \<open>2 * BIGLEN - 1\<close> down to \<open>MSW\<close>, word
  \<open>i\<close> is cleared and added to or subtracted from the words 1, 2, 5 and 8 places below.
\<close>

definition reduce_word :: "int list \<Rightarrow> nat \<Rightarrow> int list" where
  "reduce_word w i =
     (let v = w ! i
      in if v \<noteq> 0 then
           (let w = w[i := 0];
                w = w[i - 1 := s64 (w ! (i - 1) + v)];
                w = w[i - 2 := s64 (w ! (i - 2) - v)];
                w = w[i - 5 := s64 (w ! (i - 5) - v)];
                w = w[i - 8 := s64 (w ! (i - 8) + v)]
            in w)
         else w)"

definition reduce_modulus :: "int list \<Rightarrow> int list" where
  "reduce_modulus w = foldl reduce_word w (rev [MSW..<2 * BIGLEN])"

text \<open>
  The reduction modulo the curve order. First the words are brought to 32 bits with a
  signed carry. Then for \<open>i\<close> from \<open>2 * BIGLEN - 1\<close> down to \<open>MSW\<close>, at most three passes
  subtract \<open>w[i]\<close> times the order (in the signed digits of \<^verbatim>\<open>orderDBL\<close>), aligned at word
  \<open>i\<close>, while \<open>w[i]\<close> is not zero.
\<close>

definition order_carry :: "int list \<times> int \<Rightarrow> nat \<Rightarrow> int list \<times> int" where
  "order_carry st i =
     (let w = fst st; carry = snd st;
          wi = s64 (w ! i + carry);
          carry = wi div 2 ^ 32;
          wi = s64 (wi - s64 (carry * 2 ^ 32))
      in (w[i := wi], carry))"

definition order_word :: "int \<Rightarrow> nat \<Rightarrow> int list \<times> int \<Rightarrow> nat \<Rightarrow> int list \<times> int" where
  "order_word v i st j =
     (let w = fst st; carry = snd st;
          tmp = (if j \<le> i
                 then s64 (s64 (w ! j + s64 (- s64 (v * orderDBL ! (j + MSW - i)))) + carry)
                 else s64 (w ! j + carry));
          carry' = (if j < 2 * BIGLEN - 1 then tmp div 2 ^ 32 else 0);
          tmp = (if j < 2 * BIGLEN - 1 then s64 (tmp - s64 (carry' * 2 ^ 32)) else tmp)
      in (w[j := tmp], carry'))"

definition order_pass :: "int list \<Rightarrow> nat \<Rightarrow> int list" where
  "order_pass w i = fst (foldl (order_word (w ! i) i) (w, 0) [i - MSW..<2 * BIGLEN])"

fun order_passes :: "nat \<Rightarrow> int list \<Rightarrow> nat \<Rightarrow> int list" where
  "order_passes 0 w i = w"
| "order_passes (Suc k) w i = (if w ! i \<noteq> 0 then order_passes k (order_pass w i) i else w)"

definition reduce_order :: "int list \<Rightarrow> int list" where
  "reduce_order w =
     (let st = foldl order_carry (w, 0) [0..<2 * BIGLEN - 1];
          w = fst st; carry = snd st;
          w = w[2 * BIGLEN - 1 := s64 (w ! (2 * BIGLEN - 1) + carry)]
      in foldl (order_passes 3) w (rev [MSW..<2 * BIGLEN]))"

text \<open>The carries are propagated and the low \<open>BIGLEN\<close> words are copied out.\<close>

fun copy_out :: "int \<Rightarrow> int list \<Rightarrow> int list" where
  "copy_out s_accum [] = []"
| "copy_out s_accum (wi # ws) =
     (let s_accum = s64 (s_accum + wi)
      in u32 s_accum # copy_out (s_accum div 2 ^ 32) ws)"

datatype modulus_val_t = MOD_MODULUS | MOD_ORDER

definition big_mpyP_at :: "bool \<Rightarrow> bigval \<Rightarrow> bigval \<Rightarrow> modulus_val_t \<Rightarrow> bigval" where
  "big_mpyP_at same a b modselect =
     (if big_is_zero a \<or> big_is_zero b then big_zero
      else
        (let w = mpy_unsigned same a b;
             w = mpy_signed w a b;
             w = (if modselect = MOD_MODULUS then reduce_modulus w else reduce_order w);
             tgt = copy_out 0 (take BIGLEN w)
         in if modselect = MOD_MODULUS then big_approx_reduceP tgt
            else if tgt ! MSW \<noteq> 0 then big_sub tgt (big_1wd_mpy orderP (s32 (tgt ! MSW)))
            else tgt))"

text \<open>
  \<^verbatim>\<open>big_mpyP\<close> called on two different objects, and the macro \<^verbatim>\<open>big_sqrP(tgt, a)\<close>, which is
  \<^verbatim>\<open>big_mpyP(tgt, a, a, MOD_MODULUS)\<close>. The result may be stored over an argument: \<open>tgt\<close> is
  written only after the last read of \<open>a\<close> and \<open>b\<close>.
\<close>

definition big_mpyP :: "bigval \<Rightarrow> bigval \<Rightarrow> modulus_val_t \<Rightarrow> bigval" where
  "big_mpyP a b modselect = big_mpyP_at False a b modselect"

definition big_sqrP :: "bigval \<Rightarrow> bigval" where
  "big_sqrP a = big_mpyP_at True a a MOD_MODULUS"

subsection \<open>Division\<close>

text \<open>
  \<^verbatim>\<open>big_divide\<close> is the extended binary GCD. The two inner loops halve \<open>u\<close> (or \<open>v\<close>) while
  it is even, and halve the cofactor \<open>x1\<close> (or \<open>x2\<close>) with it, after adding the modulus
  when the cofactor is odd. The loops are partial functions: the C comment warns that the
  function loops forever on a zero denominator.
\<close>

partial_function (option) halve_while_even :: "bigval \<Rightarrow> bigval \<times> bigval \<Rightarrow> (bigval \<times> bigval) option" where
  "halve_while_even modulus ux =
     (if \<not> big_is_odd (fst ux) then
        (let u = big_halve (fst ux);
             x1 = (if big_is_odd (snd ux) then big_add (snd ux) modulus else snd ux);
             x1 = big_halve x1
         in halve_while_even modulus (u, x1))
      else Some ux)"

partial_function (option) big_divide_loop ::
    "bigval \<Rightarrow> bigval \<times> bigval \<times> bigval \<times> bigval \<Rightarrow> (bigval \<times> bigval \<times> bigval \<times> bigval) option" where
  "big_divide_loop modulus st =
     (case st of (u, v, x1, x2) \<Rightarrow>
        if \<not> big_is_one u \<and> \<not> big_is_one v then
          Option.bind (halve_while_even modulus (u, x1)) (\<lambda>(u, x1).
          Option.bind (halve_while_even modulus (v, x2)) (\<lambda>(v, x2).
            if big_cmp u v \<ge> 0
            then big_divide_loop modulus (big_sub u v, v, big_sub x1 x2, x2)
            else big_divide_loop modulus (u, big_sub v u, x1, big_sub x2 x1)))
        else Some st)"

declare halve_while_even.simps [code]
declare big_divide_loop.simps [code]

definition big_divide :: "bigval \<Rightarrow> bigval \<Rightarrow> modulus_ref \<Rightarrow> bigval option" where
  "big_divide num den modulus =
     Option.bind (big_divide_loop (deref modulus) (den, deref modulus, num, big_zero)) (\<lambda>(u, v, x1, x2).
       if big_is_one u then big_precise_reduce x1 modulus else big_precise_reduce x2 modulus)"

section \<open>Points\<close>

text \<open>
  \<^verbatim>\<open>affine_point_t\<close> has the fields \<^verbatim>\<open>x\<close>, \<^verbatim>\<open>y\<close> and \<^verbatim>\<open>infinity\<close>, \<^verbatim>\<open>jacobian_point_t\<close> the fields
  \<^verbatim>\<open>X\<close>, \<^verbatim>\<open>Y\<close> and \<^verbatim>\<open>Z\<close>. The initialisers of \<^verbatim>\<open>affine_infinity\<close> and \<^verbatim>\<open>jacobian_infinity\<close>
  list seven words; C sets the other two to zero.
\<close>

record affine_point_t =
  aff_x :: bigval
  aff_y :: bigval
  aff_infinity :: bool

record jacobian_point_t =
  jac_X :: bigval
  jac_Y :: bigval
  jac_Z :: bigval

definition affine_infinity :: affine_point_t where
  "affine_infinity = \<lparr>aff_x = big_zero, aff_y = big_zero, aff_infinity = True\<rparr>"

definition jacobian_infinity :: jacobian_point_t where
  "jacobian_infinity = \<lparr>jac_X = big_one, jac_Y = big_one, jac_Z = big_zero\<rparr>"

definition jacobian_point_is_infinity :: "jacobian_point_t \<Rightarrow> bool" where
  "jacobian_point_is_infinity P = big_is_zero (jac_Z P)"

definition toJacobian :: "affine_point_t \<Rightarrow> jacobian_point_t" where
  "toJacobian a = \<lparr>jac_X = aff_x a, jac_Y = aff_y a, jac_Z = big_one\<rparr>"

definition toAffine :: "jacobian_point_t \<Rightarrow> affine_point_t option" where
  "toAffine a =
     (if big_is_zero (jac_Z a) then Some affine_infinity
      else
        Option.bind (big_divide big_one (jac_Z a) ModulusP_ref) (\<lambda>zinv.
          (let zinvpwr = big_sqrP zinv;
               tx = big_mpyP (jac_X a) zinvpwr MOD_MODULUS;
               zinvpwr = big_mpyP zinvpwr zinv MOD_MODULUS;
               ty = big_mpyP (jac_Y a) zinvpwr MOD_MODULUS
           in Option.bind (big_precise_reduce tx ModulusP_ref) (\<lambda>tx.
              Option.bind (big_precise_reduce ty ModulusP_ref) (\<lambda>ty.
                Some \<lparr>aff_x = tx, aff_y = ty, aff_infinity = False\<rparr>)))))"

text \<open>
  \<^verbatim>\<open>pointDouble\<close> and \<^verbatim>\<open>pointAdd\<close>, statement by statement. The C functions may be called
  with \<open>tgt\<close> and \<open>P\<close> the same object; each field of \<open>tgt\<close> is stored after the last read
  of the field of \<open>P\<close> it overwrites, so the result is a function of the values.
\<close>

definition pointDouble :: "jacobian_point_t \<Rightarrow> jacobian_point_t option" where
  "pointDouble P =
     (if jacobian_point_is_infinity P then Some jacobian_infinity
      else
        (let x1 = jac_X P; y1 = jac_Y P; z1 = jac_Z P;
             t1 = big_sqrP z1;
             t2 = big_subP x1 t1;
             t1 = big_addP x1 t1;
             t2 = big_mpyP t2 t1 MOD_MODULUS;
             t2 = big_triple t2;
             y3 = big_addP y1 y1;
             z3 = big_mpyP y3 z1 MOD_MODULUS;
             y3 = big_sqrP y3;
             t3 = big_mpyP y3 x1 MOD_MODULUS;
             y3 = big_sqrP y3;
             y3 = big_halveP y3;
             x3 = big_sqrP t2;
             t1 = big_addP t3 t3;
             tgt_X = big_subP x3 t1;
             t1 = big_subP t3 tgt_X;
             t1 = big_mpyP t1 t2 MOD_MODULUS;
             tgt_Y = big_subP t1 y3
         in Option.bind (big_precise_reduce z3 ModulusP_ref) (\<lambda>tgt_Z.
              Some \<lparr>jac_X = tgt_X, jac_Y = tgt_Y, jac_Z = tgt_Z\<rparr>)))"

definition pointAdd :: "jacobian_point_t \<Rightarrow> affine_point_t \<Rightarrow> jacobian_point_t option" where
  "pointAdd P Q =
     (if aff_infinity Q then Some P
      else if jacobian_point_is_infinity P then Some (toJacobian Q)
      else
        (let x1 = jac_X P; y1 = jac_Y P; z1 = jac_Z P; x2 = aff_x Q; y2 = aff_y Q;
             t1 = big_sqrP z1;
             t2 = big_mpyP t1 z1 MOD_MODULUS;
             t1 = big_mpyP t1 x2 MOD_MODULUS;
             t2 = big_mpyP t2 y2 MOD_MODULUS;
             t1 = big_subP t1 x1;
             t2 = big_subP t2 y1
         in Option.bind (big_precise_reduce t1 ModulusP_ref) (\<lambda>t1.
              if big_is_zero t1 then
                Option.bind (big_precise_reduce t2 ModulusP_ref) (\<lambda>t2.
                  if big_is_zero t2 then pointDouble (toJacobian Q)
                  else Some jacobian_infinity)
              else
                (let z3 = big_mpyP z1 t1 MOD_MODULUS
                 in Option.bind (big_precise_reduce z3 ModulusP_ref) (\<lambda>z3.
                      (let t3 = big_sqrP t1;
                           t4 = big_mpyP t3 t1 MOD_MODULUS;
                           t3 = big_mpyP t3 x1 MOD_MODULUS;
                           t1 = big_addP t3 t3;
                           x3 = big_sqrP t2;
                           x3 = big_subP x3 t1;
                           tgt_X = big_subP x3 t4;
                           t3 = big_subP t3 tgt_X;
                           t3 = big_mpyP t3 t2 MOD_MODULUS;
                           t4 = big_mpyP t4 y1 MOD_MODULUS;
                           tgt_Y = big_subP t3 t4
                       in Some \<lparr>jac_X = tgt_X, jac_Y = tgt_Y, jac_Z = z3\<rparr>))))))"

text \<open>
  \<^verbatim>\<open>pointMpyP\<close> with \<^verbatim>\<open>MPY2BITS\<close> defined. \<^verbatim>\<open>big_get_2bits(n, i)\<close> is
  \<^verbatim>\<open>((n)->data[(i) / 32] >> ((i) % 32)) & 3\<close>. The loop index \<open>i\<close> runs over the even numbers
  from \<open>BIGLEN * 32 - 2\<close> down to 0; the model counts the two-bit digits that are left, so
  that digit \<open>j\<close> stands at \<open>i = 2 * j\<close>. The table \<^verbatim>\<open>mpyset\<close> holds a null pointer at index
  0; it is a list of optional points.
\<close>

definition big_get_2bits :: "bigval \<Rightarrow> nat \<Rightarrow> int" where
  "big_get_2bits n i = (n ! (i div 32) div 2 ^ (i mod 32)) mod 4"

fun discard_zero_pairs :: "bigval \<Rightarrow> nat \<Rightarrow> nat" where
  "discard_zero_pairs k 0 = 0"
| "discard_zero_pairs k (Suc j) =
     (if big_get_2bits k (2 * j) \<noteq> 0 then Suc j else discard_zero_pairs k j)"

fun pointMpyP_loop ::
    "affine_point_t option list \<Rightarrow> bigval \<Rightarrow> nat \<Rightarrow> jacobian_point_t \<Rightarrow> jacobian_point_t option" where
  "pointMpyP_loop mpyset k 0 Q = Some Q"
| "pointMpyP_loop mpyset k (Suc j) Q =
     (let mbits = big_get_2bits k (2 * j)
      in Option.bind (pointDouble Q) (\<lambda>Q.
         Option.bind (pointDouble Q) (\<lambda>Q.
         Option.bind (case mpyset ! nat mbits of None \<Rightarrow> Some Q | Some T \<Rightarrow> pointAdd Q T) (\<lambda>Q.
           pointMpyP_loop mpyset k j Q))))"

definition pointMpyP :: "bigval \<Rightarrow> affine_point_t \<Rightarrow> affine_point_t option" where
  "pointMpyP k P =
     (if big_is_negative k then Some affine_infinity
      else if big_is_zero k \<or> big_is_negative k then Some affine_infinity
      else
        Option.bind (pointDouble (toJacobian P)) (\<lambda>Q.
        Option.bind (toAffine Q) (\<lambda>twoP.
        Option.bind (pointAdd Q P) (\<lambda>Q.
        Option.bind (toAffine Q) (\<lambda>threeP.
          (let mpyset = [None, Some P, Some twoP, Some threeP];
               digits = discard_zero_pairs k (BIGLEN * 16)
           in Option.bind (pointMpyP_loop mpyset k digits jacobian_infinity) toAffine))))))"

section \<open>Conversions\<close>

subsection \<open>Field elements of the other representation\<close>

text \<open>
  A \<^verbatim>\<open>digit256_t\<close> is an array of four 64-bit digits, least significant digit first. The
  conversions copy memory with \<^verbatim>\<open>memcpy\<close> between that array and the 32-bit words of a
  \<^verbatim>\<open>bigval_t\<close>, and swap adjacent words when \<^verbatim>\<open>QCC_TARGET_ENDIAN\<close> is \<^verbatim>\<open>QCC_BIG_ENDIAN\<close>. The
  model goes through the bytes in memory: an integer of \<open>n\<close> bytes is stored least
  significant byte first on a little-endian target and most significant byte first on a
  big-endian one.
\<close>

datatype endian = QCC_LITTLE_ENDIAN | QCC_BIG_ENDIAN

type_synonym digit256_t = "int list"

definition digit256_ok :: "digit256_t \<Rightarrow> bool" where
  "digit256_ok d \<longleftrightarrow> length d = 4 \<and> list_all (\<lambda>x. 0 \<le> x \<and> x < 2 ^ 64) d"

fun le_bytes :: "nat \<Rightarrow> int \<Rightarrow> int list" where
  "le_bytes 0 x = []"
| "le_bytes (Suc n) x = x mod 256 # le_bytes n (x div 256)"

fun le_val :: "int list \<Rightarrow> int" where
  "le_val [] = 0"
| "le_val (b # bs) = b + 256 * le_val bs"

definition store_int :: "endian \<Rightarrow> nat \<Rightarrow> int \<Rightarrow> int list" where
  "store_int e n x = (if e = QCC_LITTLE_ENDIAN then le_bytes n x else rev (le_bytes n x))"

definition load_int :: "endian \<Rightarrow> int list \<Rightarrow> int" where
  "load_int e bs = (if e = QCC_LITTLE_ENDIAN then le_val bs else le_val (rev bs))"

text \<open>An array of integers of \<open>n\<close> bytes each, as bytes in memory and back.\<close>

definition store_array :: "endian \<Rightarrow> nat \<Rightarrow> int list \<Rightarrow> int list" where
  "store_array e n xs = concat (map (store_int e n) xs)"

fun chunks :: "nat \<Rightarrow> 'a list \<Rightarrow> 'a list list" where
  "chunks n xs = (if n = 0 \<or> length xs < n then [] else take n xs # chunks n (drop n xs))"

declare chunks.simps [simp del]

definition load_array :: "endian \<Rightarrow> nat \<Rightarrow> int list \<Rightarrow> int list" where
  "load_array e n bs = map (load_int e) (chunks n bs)"

text \<open>\<^verbatim>\<open>for (i = 0; i < (BIGLEN - 1); i += 2) SWAP(data[i], data[i + 1]);\<close>\<close>

definition SWAP :: "int list \<Rightarrow> nat \<Rightarrow> int list" where
  "SWAP data i = data[i := data ! (i + 1), i + 1 := data ! i]"

definition swap_adjacent :: "int list \<Rightarrow> int list" where
  "swap_adjacent data = foldl SWAP data [0, 2, 4, 6]"

text \<open>
  \<^verbatim>\<open>digit256_to_bigval\<close>: \<^verbatim>\<open>memcpy(dst->data, src, sizeof(digit256_t))\<close> fills the words 0 to
  7, then word 8 is set to zero.
\<close>

definition digit256_to_bigval :: "endian \<Rightarrow> digit256_t \<Rightarrow> bigval" where
  "digit256_to_bigval e src =
     (let dst = load_array e 4 (store_array e 8 src) @ [0]
      in if e = QCC_BIG_ENDIAN then swap_adjacent dst else dst)"

text \<open>
  \<^verbatim>\<open>bigval_to_digit256\<close> returns false, and leaves \<open>dst\<close> alone, on a negative input
  (\<open>None\<close>). Otherwise it copies the words 0 to 7 into \<open>dst\<close>, swaps adjacent 32-bit words
  of \<open>dst\<close> on a big-endian target and returns true.
\<close>

definition bigval_to_digit256 :: "endian \<Rightarrow> bigval \<Rightarrow> digit256_t option" where
  "bigval_to_digit256 e src =
     (if big_is_negative src then None
      else
        (let data = load_array e 4 (store_array e 4 (take (BIGLEN - 1) src));
             data = (if e = QCC_BIG_ENDIAN then swap_adjacent data else data)
         in Some (load_array e 8 (store_array e 4 data))))"

subsection \<open>Byte strings\<close>

text \<open>
  \<^verbatim>\<open>bigval_to_binary\<close> writes into the caller's buffer \<open>tgt\<close> of \<open>tgtlen\<close> bytes, from the
  last byte (least significant) backwards. \<^verbatim>\<open>binary_to_bigval\<close> clears the \<^verbatim>\<open>bigval_t\<close> and
  ors the bytes into its words.
\<close>

definition bigval_to_binary :: "bigval \<Rightarrow> int list \<Rightarrow> nat \<Rightarrow> int list" where
  "bigval_to_binary src tgt tgtlen =
     (let highbytes = (if big_is_negative src then 0xff else 0);
          tgt = foldl (\<lambda>tgt i.
                  if i < tgtlen
                  then tgt[tgtlen - 1 - i := u8 (src ! (i div 4) div 2 ^ (8 * (i mod 4)))]
                  else tgt) tgt [0..<4 * BIGLEN];
          tgt = foldl (\<lambda>tgt i. tgt[tgtlen - 1 - i := highbytes]) tgt [4 * BIGLEN..<tgtlen]
      in tgt)"

definition binary_to_bigval :: "int list \<Rightarrow> nat \<Rightarrow> bigval" where
  "binary_to_bigval src srclen =
     foldl (\<lambda>tgt i.
        tgt[i div 4 := or (tgt ! (i div 4)) (u32 (u32 (src ! (srclen - 1 - i)) * 2 ^ (8 * (i mod 4))))])
       (replicate BIGLEN 0) [0..<min srclen (4 * BIGLEN)]"

section \<open>Properties of the big number primitives\<close>

subsection \<open>Word lists and their values\<close>

lemma u32_id: "0 \<le> x \<Longrightarrow> x < 2 ^ 32 \<Longrightarrow> u32 x = x"
  by (simp add: u32_def)

lemma u64_id: "0 \<le> x \<Longrightarrow> x < 2 ^ 64 \<Longrightarrow> u64 x = x"
  by (simp add: u64_def)

lemma s32_id: "- (2 ^ 31) \<le> x \<Longrightarrow> x < 2 ^ 31 \<Longrightarrow> s32 x = x"
  by (simp add: s32_def)

lemma s64_id: "- (2 ^ 63) \<le> x \<Longrightarrow> x < 2 ^ 63 \<Longrightarrow> s64 x = x"
  by (simp add: s64_def)

lemma u32_range: "0 \<le> u32 x \<and> u32 x < 2 ^ 32"
  by (simp add: u32_def)

lemma u32_ge0 [simp]: "0 \<le> u32 x"
  by (simp add: u32_def)

lemma u32_lt [simp]: "u32 x < 4294967296"
  by (simp add: u32_def)

lemma s32_range: "- (2 ^ 31) \<le> s32 x \<and> s32 x < 2 ^ 31"
proof -
  have "0 \<le> (x + 2 ^ 31) mod 2 ^ 32 \<and> (x + 2 ^ 31) mod 2 ^ 32 < (2 ^ 32 :: int)"
    by simp
  then show ?thesis unfolding s32_def by simp
qed

lemma s32_of_word: "0 \<le> x \<Longrightarrow> x < 2 ^ 32 \<Longrightarrow> s32 x = (if x < 2 ^ 31 then x else x - 2 ^ 32)"
  unfolding s32_def
  by (auto simp: mod_pos_pos_trivial) (smt (verit) minus_mod_self2 mod_pos_pos_trivial)

definition words_ok :: "int list \<Rightarrow> bool" where
  "words_ok xs = list_all (\<lambda>x. 0 \<le> x \<and> x < 2 ^ 32) xs"

lemma words_ok_simps [simp]:
  "words_ok [] = True"
  "words_ok (x # xs) = (0 \<le> x \<and> x < 2 ^ 32 \<and> words_ok xs)"
  by (auto simp: words_ok_def)

lemma bigval_ok_words: "bigval_ok a \<longleftrightarrow> length a = 9 \<and> words_ok a"
  by (simp add: bigval_ok_def words_ok_def)

lemma big_uval_bounds:
  "words_ok xs \<Longrightarrow> 0 \<le> big_uval xs \<and> big_uval xs < 2 ^ (32 * length xs)"
proof (induction xs)
  case Nil
  show ?case by simp
next
  case (Cons x xs)
  then have u: "0 \<le> big_uval xs" "big_uval xs \<le> 2 ^ (32 * length xs) - 1"
    and x: "0 \<le> x" "x < 2 ^ 32"
    by auto
  have "2 ^ 32 * big_uval xs \<le> (2 ^ 32 :: int) * (2 ^ (32 * length xs) - 1)"
    using u by (intro mult_left_mono) auto
  also have "\<dots> = 2 ^ (32 * length (x # xs)) - 2 ^ 32"
    by (simp add: power_add algebra_simps)
  finally show ?case using x u by simp
qed

lemma length9_cases:
  assumes "length a = 9"
  obtains a0 a1 a2 a3 a4 a5 a6 a7 a8 where "a = [a0, a1, a2, a3, a4, a5, a6, a7, a8]"
proof -
  from assms obtain a0 r0 where "a = a0 # r0" "length r0 = 8" by (cases a) auto
  moreover then obtain a1 r1 where "r0 = a1 # r1" "length r1 = 7" by (cases r0) auto
  moreover then obtain a2 r2 where "r1 = a2 # r2" "length r2 = 6" by (cases r1) auto
  moreover then obtain a3 r3 where "r2 = a3 # r3" "length r3 = 5" by (cases r2) auto
  moreover then obtain a4 r4 where "r3 = a4 # r4" "length r4 = 4" by (cases r3) auto
  moreover then obtain a5 r5 where "r4 = a5 # r5" "length r5 = 3" by (cases r4) auto
  moreover then obtain a6 r6 where "r5 = a6 # r6" "length r6 = 2" by (cases r5) auto
  moreover then obtain a7 r7 where "r6 = a7 # r7" "length r7 = 1" by (cases r6) auto
  moreover then obtain a8 r8 where "r7 = a8 # r8" "length r8 = 0" by (cases r7) auto
  ultimately show ?thesis using that by auto
qed


lemma carry_mod:
  fixes r B M X :: int
  assumes "0 \<le> r" "r < B" "0 < M"
  shows "(r + B * X) mod (B * M) = r + B * (X mod M)"
proof -
  have B: "0 < B" using assms by linarith
  have d: "(r + B * X) div B = X"
    using assms B by (simp add: div_pos_pos_trivial)
  have m: "(r + B * X) mod B = r"
    using assms B by (simp add: mod_pos_pos_trivial)
  have "(r + B * X) mod (B * M) = B * ((r + B * X) div B mod M) + (r + B * X) mod B"
    using assms by (intro zmod_zmult2_eq) simp
  then show ?thesis unfolding d m by simp
qed

lemma carry_mod32:
  fixes t X :: int
  shows "(t + 2 ^ 32 * X) mod 2 ^ (32 * Suc n) = t mod 2 ^ 32 + 2 ^ 32 * ((t div 2 ^ 32 + X) mod 2 ^ (32 * n))"
proof -
  have "t + 2 ^ 32 * X = t mod 2 ^ 32 + 2 ^ 32 * (t div 2 ^ 32 + X)"
    by (simp add: algebra_simps)
  moreover have "(2::int) ^ (32 * Suc n) = 2 ^ 32 * 2 ^ (32 * n)"
    by (simp add: power_add)
  moreover have "(t mod 2 ^ 32 + 2 ^ 32 * (t div 2 ^ 32 + X)) mod (2 ^ 32 * 2 ^ (32 * n))
      = t mod 2 ^ 32 + 2 ^ 32 * ((t div 2 ^ 32 + X) mod 2 ^ (32 * n))"
    by (rule carry_mod) simp_all
  ultimately show ?thesis by simp
qed

lemma big_add_loop_uval:
  "length as = length bs \<Longrightarrow> words_ok as \<Longrightarrow> words_ok bs \<Longrightarrow> 0 \<le> v \<Longrightarrow> v < 2 ^ 32 \<Longrightarrow>
   words_ok (big_add_loop v as bs) \<and> length (big_add_loop v as bs) = length as \<and>
   big_uval (big_add_loop v as bs) = (v + big_uval as + big_uval bs) mod 2 ^ (32 * length as)"
proof (induction as arbitrary: bs v)
  case Nil
  then show ?case by simp
next
  case (Cons a as)
  then obtain b bs' where bs: "bs = b # bs'" by (cases bs) auto
  from Cons.prems bs have r: "0 \<le> a" "a < 2 ^ 32" "0 \<le> b" "b < 2 ^ 32"
    and ok: "words_ok as" "words_ok bs'" and len: "length as = length bs'"
    by auto
  define t where "t = v + a + b"
  have t: "0 \<le> t" "t < 2 ^ 34" using r Cons.prems(4,5) by (auto simp: t_def)
  have u1: "u64 (v + a) = v + a" using r Cons.prems(4,5) by (intro u64_id) auto
  have u2: "u64 (v + a + b) = t" using t by (simp add: t_def u64_id)
  have c: "0 \<le> t div 2 ^ 32" "t div 2 ^ 32 < 2 ^ 32"
    using t by (auto simp: pos_imp_zdiv_nonneg_iff div_less_iff_less_mult)
  note IH = Cons.IH [OF len ok c]
  have step: "big_add_loop v (a # as) (b # bs') = u32 t # big_add_loop (t div 2 ^ 32) as bs'"
    by (simp add: Let_def u1 u2)
  have "big_uval (big_add_loop v (a # as) (b # bs'))
      = t mod 2 ^ 32 + 2 ^ 32 * ((t div 2 ^ 32 + (big_uval as + big_uval bs')) mod 2 ^ (32 * length as))"
    using IH by (simp add: step u32_def add.assoc del: big_add_loop.simps)
  also have "\<dots> = (t + 2 ^ 32 * (big_uval as + big_uval bs')) mod 2 ^ (32 * Suc (length as))"
    by (rule carry_mod32 [symmetric])
  also have "t + 2 ^ 32 * (big_uval as + big_uval bs') = v + big_uval (a # as) + big_uval (b # bs')"
    by (simp add: t_def algebra_simps)
  finally have val: "big_uval (big_add_loop v (a # as) (b # bs'))
      = (v + big_uval (a # as) + big_uval (b # bs')) mod 2 ^ (32 * length (a # as))"
    by simp
  show ?case
    unfolding bs using IH val by (simp add: step u32_range del: big_add_loop.simps)
qed


lemma u32_compl: "0 \<le> b \<Longrightarrow> b < 2 ^ 32 \<Longrightarrow> u32 (- b - 1) = 2 ^ 32 - 1 - b"
proof -
  assume b: "0 \<le> b" "b < 2 ^ 32"
  have "(- b - 1 + 2 ^ 32) mod 2 ^ 32 = (- b - 1) mod 2 ^ 32"
    by (rule mod_add_self2)
  moreover have "(- b - 1 + 2 ^ 32) mod 2 ^ 32 = - b - 1 + 2 ^ 32"
    using b by (intro mod_pos_pos_trivial) auto
  ultimately show ?thesis by (simp add: u32_def)
qed

lemma big_sub_loop_uval:
  "length as = length bs \<Longrightarrow> words_ok as \<Longrightarrow> words_ok bs \<Longrightarrow> 0 \<le> v \<Longrightarrow> v < 2 ^ 32 \<Longrightarrow>
   words_ok (big_sub_loop v as bs) \<and> length (big_sub_loop v as bs) = length as \<and>
   big_uval (big_sub_loop v as bs) = (v + big_uval as - big_uval bs - 1) mod 2 ^ (32 * length as)"
proof (induction as arbitrary: bs v)
  case Nil
  then show ?case by simp
next
  case (Cons a as)
  then obtain b bs' where bs: "bs = b # bs'" by (cases bs) auto
  from Cons.prems bs have r: "0 \<le> a" "a < 2 ^ 32" "0 \<le> b" "b < 2 ^ 32"
    and ok: "words_ok as" "words_ok bs'" and len: "length as = length bs'"
    by auto
  define t where "t = v + a + (2 ^ 32 - 1 - b)"
  have t: "0 \<le> t" "t < 2 ^ 34" using r Cons.prems(4,5) by (auto simp: t_def)
  have u0: "u64 (u32 (- b - 1)) = 2 ^ 32 - 1 - b"
    using r by (simp add: u32_compl u64_id)
  have u1: "u64 (v + a) = v + a" using r Cons.prems(4,5) by (intro u64_id) auto
  have u2: "u64 (v + a + (2 ^ 32 - 1 - b)) = t" using t by (simp add: t_def u64_id)
  have c: "0 \<le> t div 2 ^ 32" "t div 2 ^ 32 < 2 ^ 32"
    using t by (auto simp: pos_imp_zdiv_nonneg_iff div_less_iff_less_mult)
  note IH = Cons.IH [OF len ok c]
  have step: "big_sub_loop v (a # as) (b # bs') = u32 t # big_sub_loop (t div 2 ^ 32) as bs'"
    unfolding big_sub_loop.simps Let_def u0 u1 u2 ..
  have "big_uval (big_sub_loop v (a # as) (b # bs'))
      = t mod 2 ^ 32 + 2 ^ 32 * ((t div 2 ^ 32 + (big_uval as - big_uval bs' - 1)) mod 2 ^ (32 * length as))"
    using IH by (simp add: step u32_def algebra_simps del: big_sub_loop.simps)
  also have "\<dots> = (t + 2 ^ 32 * (big_uval as - big_uval bs' - 1)) mod 2 ^ (32 * Suc (length as))"
    by (rule carry_mod32 [symmetric])
  also have "t + 2 ^ 32 * (big_uval as - big_uval bs' - 1) = v + big_uval (a # as) - big_uval (b # bs') - 1"
    by (simp add: t_def algebra_simps)
  finally have val: "big_uval (big_sub_loop v (a # as) (b # bs'))
      = (v + big_uval (a # as) - big_uval (b # bs') - 1) mod 2 ^ (32 * length (a # as))"
    by simp
  show ?case
    unfolding bs using IH val by (simp add: step del: big_sub_loop.simps)
qed

lemma div32_bounds:
  fixes t lo hi :: int
  assumes "lo * 2 ^ 32 \<le> t" "t < hi * 2 ^ 32"
  shows "lo \<le> t div 2 ^ 32" "t div 2 ^ 32 < hi"
proof -
  have "lo * 2 ^ 32 div 2 ^ 32 \<le> t div 2 ^ 32"
    using assms(1) by (intro zdiv_mono1) auto
  then show "lo \<le> t div 2 ^ 32" by simp
  have "t div 2 ^ 32 * 2 ^ 32 + t mod 2 ^ 32 = t"
    by (rule div_mult_mod_eq)
  moreover have "0 \<le> t mod 2 ^ 32"
    by simp
  ultimately have "t div 2 ^ 32 * 2 ^ 32 \<le> t"
    by linarith
  then have "t div 2 ^ 32 * 2 ^ 32 < hi * 2 ^ 32"
    using assms(2) by linarith
  then show "t div 2 ^ 32 < hi"
    by simp
qed

lemma prod_bounds:
  fixes k a :: int
  assumes "- (2 ^ 31) \<le> k" "k < 2 ^ 31" "0 \<le> a" "a < 2 ^ 32"
  shows "- (2 ^ 63) + 2 ^ 31 \<le> k * a" "k * a \<le> 2 ^ 63 - 2 ^ 32 - 2 ^ 31 + 1"
proof -
  have "(- k) * a \<le> 2 ^ 31 * (2 ^ 32 - 1)"
  proof (cases "0 \<le> - k")
    case True
    then show ?thesis using assms by (intro mult_mono) auto
  next
    case False
    then have "(- k) * a \<le> 0" using assms by (simp add: mult_nonneg_nonneg)
    then show ?thesis by simp
  qed
  then show "- (2 ^ 63) + 2 ^ 31 \<le> k * a" by simp
  have "k * a \<le> (2 ^ 31 - 1) * (2 ^ 32 - 1)"
  proof (cases "0 \<le> k")
    case True
    then show ?thesis using assms by (intro mult_mono) auto
  next
    case False
    then have "k * a \<le> 0" using assms by (simp add: mult_nonpos_nonneg)
    then show ?thesis by simp
  qed
  then show "k * a \<le> 2 ^ 63 - 2 ^ 32 - 2 ^ 31 + 1" by simp
qed

lemma big_1wd_mpy_loop_uval:
  "words_ok as \<Longrightarrow> - (2 ^ 31) \<le> k \<Longrightarrow> k < 2 ^ 31 \<Longrightarrow> - (2 ^ 31) \<le> w \<Longrightarrow> w < 2 ^ 31 \<Longrightarrow>
   words_ok (big_1wd_mpy_loop k w as) \<and> length (big_1wd_mpy_loop k w as) = length as \<and>
   big_uval (big_1wd_mpy_loop k w as) = (w + k * big_uval as) mod 2 ^ (32 * length as)"
proof (induction as arbitrary: w)
  case Nil
  then show ?case by simp
next
  case (Cons a as)
  then have r: "0 \<le> a" "a < 2 ^ 32" and ok: "words_ok as" by auto
  note pb = prod_bounds [OF Cons.prems(2,3) r]
  define t where "t = w + k * a"
  have t: "- (2 ^ 63) \<le> t" "t < 2 ^ 63" using pb Cons.prems(4,5) by (auto simp: t_def)
  have p: "s64 (k * a) = k * a" using pb by (intro s64_id) auto
  have st: "s64 (w + k * a) = t" using t by (simp add: t_def s64_id)
  have tm: "t - u32 t = 2 ^ 32 * (t div 2 ^ 32)"
    by (simp add: u32_def minus_mod_eq_mult_div)
  have c: "- (2 ^ 31) \<le> t div 2 ^ 32" "t div 2 ^ 32 < 2 ^ 31"
    using t div32_bounds [of "- (2 ^ 31)" t "2 ^ 31"] by auto
  have w': "s64 (t - u32 t) = 2 ^ 32 * (t div 2 ^ 32)"
    unfolding tm using c by (intro s64_id) auto
  note IH = Cons.IH [OF ok Cons.prems(2,3) c]
  have step: "big_1wd_mpy_loop k w (a # as) = u32 t # big_1wd_mpy_loop k (t div 2 ^ 32) as"
    unfolding big_1wd_mpy_loop.simps Let_def p st w' by simp
  have "big_uval (big_1wd_mpy_loop k w (a # as))
      = t mod 2 ^ 32 + 2 ^ 32 * ((t div 2 ^ 32 + k * big_uval as) mod 2 ^ (32 * length as))"
    using IH by (simp add: step u32_def algebra_simps del: big_1wd_mpy_loop.simps)
  also have "\<dots> = (t + 2 ^ 32 * (k * big_uval as)) mod 2 ^ (32 * Suc (length as))"
    by (rule carry_mod32 [symmetric])
  also have "t + 2 ^ 32 * (k * big_uval as) = w + k * big_uval (a # as)"
    by (simp add: t_def algebra_simps)
  finally have val: "big_uval (big_1wd_mpy_loop k w (a # as))
      = (w + k * big_uval (a # as)) mod 2 ^ (32 * length (a # as))"
    by simp
  show ?case
    using IH val by (simp add: step del: big_1wd_mpy_loop.simps)
qed


lemma u32_s32 [simp]: "u32 (s32 x) = u32 x"
  unfolding u32_def s32_def by (simp add: mod_diff_left_eq)

fun rdc_chain :: "int \<Rightarrow> int list \<Rightarrow> int list \<Rightarrow> int list" where
  "rdc_chain w (a # as) (d # ds) = fst (RDCSTEP w a d) # rdc_chain (snd (RDCSTEP w a d)) as ds"
| "rdc_chain w _ _ = []"

lemma RDCSTEP_val:
  assumes "- (2 ^ 31) \<le> w" "w \<le> 2 ^ 31" "0 \<le> a" "a < 2 ^ 32" "- (2 ^ 62) \<le> d" "d \<le> 2 ^ 62"
  shows "RDCSTEP w a d = ((w + a + d) mod 2 ^ 32, (w + a + d) div 2 ^ 32)"
    and "- (2 ^ 31) \<le> (w + a + d) div 2 ^ 32" and "(w + a + d) div 2 ^ 32 \<le> 2 ^ 31"
proof -
  have 1: "s64 (w + a) = w + a" using assms by (intro s64_id) auto
  have 2: "s64 (w + a + d) = w + a + d" using assms by (intro s64_id) auto
  show "RDCSTEP w a d = ((w + a + d) mod 2 ^ 32, (w + a + d) div 2 ^ 32)"
    unfolding RDCSTEP_def Let_def 1 2 u32_s32 by (simp add: u32_def)
  have "- (2 ^ 31) * 2 ^ 32 \<le> w + a + d" "w + a + d < (2 ^ 31 + 1) * 2 ^ 32"
    using assms by auto
  from div32_bounds [OF this]
  show "- (2 ^ 31) \<le> (w + a + d) div 2 ^ 32" and "(w + a + d) div 2 ^ 32 \<le> 2 ^ 31"
    by auto
qed

lemma rdc_chain_uval:
  "length as = length ds \<Longrightarrow> words_ok as \<Longrightarrow> list_all (\<lambda>d. - (2 ^ 62) \<le> d \<and> d \<le> 2 ^ 62) ds \<Longrightarrow>
   - (2 ^ 31) \<le> w \<Longrightarrow> w \<le> 2 ^ 31 \<Longrightarrow>
   words_ok (rdc_chain w as ds) \<and> length (rdc_chain w as ds) = length as \<and>
   big_uval (rdc_chain w as ds) = (w + big_uval as + big_uval ds) mod 2 ^ (32 * length as)"
proof (induction as arbitrary: ds w)
  case Nil
  then show ?case by simp
next
  case (Cons a as)
  then obtain d ds' where ds: "ds = d # ds'" by (cases ds) auto
  from Cons.prems ds have r: "0 \<le> a" "a < 2 ^ 32" "- (2 ^ 62) \<le> d" "d \<le> 2 ^ 62"
    and ok: "words_ok as" "list_all (\<lambda>d. - (2 ^ 62) \<le> d \<and> d \<le> 2 ^ 62) ds'"
    and len: "length as = length ds'"
    by auto
  define t where "t = w + a + d"
  note R = RDCSTEP_val [OF Cons.prems(4,5) r, folded t_def]
  note IH = Cons.IH [OF len ok R(2,3)]
  have step: "rdc_chain w (a # as) (d # ds') = u32 t # rdc_chain (t div 2 ^ 32) as ds'"
    by (simp add: R(1) u32_def)
  have "big_uval (rdc_chain w (a # as) (d # ds'))
      = t mod 2 ^ 32 + 2 ^ 32 * ((t div 2 ^ 32 + (big_uval as + big_uval ds')) mod 2 ^ (32 * length as))"
    using IH by (simp add: step u32_def algebra_simps del: rdc_chain.simps)
  also have "\<dots> = (t + 2 ^ 32 * (big_uval as + big_uval ds')) mod 2 ^ (32 * Suc (length as))"
    by (rule carry_mod32 [symmetric])
  also have "t + 2 ^ 32 * (big_uval as + big_uval ds') = w + big_uval (a # as) + big_uval (d # ds')"
    by (simp add: t_def algebra_simps)
  finally have val: "big_uval (rdc_chain w (a # as) (d # ds'))
      = (w + big_uval (a # as) + big_uval (d # ds')) mod 2 ^ (32 * length (a # as))"
    by simp
  show ?case
    unfolding ds using IH val by (simp add: step del: rdc_chain.simps)
qed

lemma big_adjustP_chain:
  "k \<noteq> 0 \<Longrightarrow> big_adjustP [a0, a1, a2, a3, a4, a5, a6, a7, a8] k =
     rdc_chain 0 [a0, a1, a2, a3, a4, a5, a6, a7, a8] [s64 (- k), 0, 0, k, 0, 0, k, s64 (- k), k]"
  by (simp add: big_adjustP_def Let_def split_def)

lemma big_adjustP_uval:
  assumes "bigval_ok a" "- (2 ^ 62) \<le> k" "k \<le> 2 ^ 62"
  shows "bigval_ok (big_adjustP a k)"
    and "big_uval (big_adjustP a k) = (big_uval a + k * p256) mod 2 ^ 288"
proof -
  from assms(1) have len: "length a = 9" and ok: "words_ok a"
    by (auto simp: bigval_ok_words)
  from len obtain a0 a1 a2 a3 a4 a5 a6 a7 a8 where a: "a = [a0, a1, a2, a3, a4, a5, a6, a7, a8]"
    by (rule length9_cases)
  have u: "big_uval a mod 2 ^ 288 = big_uval a"
    using big_uval_bounds [OF ok] len by (intro mod_pos_pos_trivial) auto
  show "bigval_ok (big_adjustP a k)" "big_uval (big_adjustP a k) = (big_uval a + k * p256) mod 2 ^ 288"
  proof (atomize (full), cases "k = 0")
    case True
    then show "bigval_ok (big_adjustP a k) \<and> big_uval (big_adjustP a k) = (big_uval a + k * p256) mod 2 ^ 288"
      using assms(1) u by (simp add: big_adjustP_def)
  next
    case False
    have mk: "s64 (- k) = - k" using assms by (intro s64_id) auto
    let ?ds = "[- k, 0, 0, k, 0, 0, k, - k, k]"
    have ds: "list_all (\<lambda>d. - (2 ^ 62) \<le> d \<and> d \<le> 2 ^ 62) ?ds"
      using assms by simp
    have eq: "big_adjustP a k = rdc_chain 0 a ?ds"
      unfolding a big_adjustP_chain [OF False] mk by (rule refl)
    have "length a = length ?ds" using len by simp
    from rdc_chain_uval [OF this ok ds, of 0]
    have R: "words_ok (rdc_chain 0 a ?ds)" "length (rdc_chain 0 a ?ds) = length a"
      "big_uval (rdc_chain 0 a ?ds) = (0 + big_uval a + big_uval ?ds) mod 2 ^ (32 * length a)"
      by auto
    have kp: "big_uval ?ds = k * p256"
      by (simp add: p256_def algebra_simps)
    show "bigval_ok (big_adjustP a k) \<and> big_uval (big_adjustP a k) = (big_uval a + k * p256) mod 2 ^ 288"
      using R len unfolding eq kp by (simp add: bigval_ok_words)
  qed
qed


lemma big_val_range:
  assumes "bigval_ok a"
  shows "- (2 ^ 287) \<le> big_val a" "big_val a < 2 ^ 287"
proof -
  from assms have "0 \<le> big_uval a \<and> big_uval a < 2 ^ (32 * 9)"
    using big_uval_bounds [of a] by (simp add: bigval_ok_words)
  then show "- (2 ^ 287) \<le> big_val a" "big_val a < 2 ^ 287"
    by (auto simp: big_val_def)
qed

lemma big_uval_val_mod:
  assumes "bigval_ok a"
  shows "big_uval a = big_val a mod 2 ^ 288"
proof -
  from assms have u: "0 \<le> big_uval a" "big_uval a < 2 ^ 288"
    using big_uval_bounds [of a] by (auto simp: bigval_ok_words)
  show ?thesis
  proof (cases "big_uval a < 2 ^ 287")
    case True
    then show ?thesis using u by (simp add: big_val_def mod_pos_pos_trivial)
  next
    case False
    have "(big_uval a - 2 ^ 288) mod 2 ^ 288 = big_uval a mod 2 ^ 288"
      by (rule minus_mod_self2)
    then show ?thesis using False u by (simp add: big_val_def mod_pos_pos_trivial)
  qed
qed

lemma big_val_eqI:
  assumes "bigval_ok r" "big_uval r = X mod 2 ^ 288" "- (2 ^ 287) \<le> X" "X < 2 ^ 287"
  shows "big_val r = X"
proof (cases "0 \<le> X")
  case True
  then have "X mod 2 ^ 288 = X" using assms(4) by (intro mod_pos_pos_trivial) auto
  then show ?thesis using assms by (simp add: big_val_def)
next
  case False
  have "(X + 2 ^ 288) mod 2 ^ 288 = X mod 2 ^ 288"
    by (rule mod_add_self2)
  moreover have "(X + 2 ^ 288) mod 2 ^ 288 = X + 2 ^ 288"
    using False assms(3) by (intro mod_pos_pos_trivial) auto
  ultimately have "big_uval r = X + 2 ^ 288" using assms(2) by simp
  then show ?thesis using False assms(3) by (simp add: big_val_def)
qed

lemma big_add_ok_val:
  assumes "bigval_ok a" "bigval_ok b"
  shows "bigval_ok (big_add a b)"
    and "big_uval (big_add a b) = (big_val a + big_val b) mod 2 ^ 288"
proof -
  from assms have l: "length a = length b" and ok: "words_ok a" "words_ok b" and n: "length a = 9"
    by (auto simp: bigval_ok_words)
  from big_add_loop_uval [OF l ok, of 0]
  have R: "words_ok (big_add a b)" "length (big_add a b) = 9"
    "big_uval (big_add a b) = (big_uval a + big_uval b) mod 2 ^ 288"
    using n by (auto simp: big_add_def)
  show "bigval_ok (big_add a b)" using R by (simp add: bigval_ok_words)
  show "big_uval (big_add a b) = (big_val a + big_val b) mod 2 ^ 288"
    unfolding R(3) big_uval_val_mod [OF assms(1)] big_uval_val_mod [OF assms(2)]
    by (simp add: mod_add_eq)
qed

lemma big_sub_ok_val:
  assumes "bigval_ok a" "bigval_ok b"
  shows "bigval_ok (big_sub a b)"
    and "big_uval (big_sub a b) = (big_val a - big_val b) mod 2 ^ 288"
proof -
  from assms have l: "length a = length b" and ok: "words_ok a" "words_ok b" and n: "length a = 9"
    by (auto simp: bigval_ok_words)
  from big_sub_loop_uval [OF l ok, of 1]
  have R: "words_ok (big_sub a b)" "length (big_sub a b) = 9"
    "big_uval (big_sub a b) = (big_uval a - big_uval b) mod 2 ^ 288"
    using n by (auto simp: big_sub_def)
  show "bigval_ok (big_sub a b)" using R by (simp add: bigval_ok_words)
  show "big_uval (big_sub a b) = (big_val a - big_val b) mod 2 ^ 288"
    unfolding R(3) big_uval_val_mod [OF assms(1)] big_uval_val_mod [OF assms(2)]
    by (simp add: mod_diff_eq)
qed

lemma big_adjustP_ok_val:
  assumes "bigval_ok a" "- (2 ^ 62) \<le> k" "k \<le> 2 ^ 62"
  shows "bigval_ok (big_adjustP a k)"
    and "big_uval (big_adjustP a k) = (big_val a + k * p256) mod 2 ^ 288"
proof -
  show "bigval_ok (big_adjustP a k)" by (rule big_adjustP_uval [OF assms])
  show "big_uval (big_adjustP a k) = (big_val a + k * p256) mod 2 ^ 288"
    unfolding big_adjustP_uval(2) [OF assms] big_uval_val_mod [OF assms(1)]
    by (simp add: mod_add_left_eq)
qed

lemma big_1wd_mpy_ok_val:
  assumes "bigval_ok a" "- (2 ^ 31) \<le> k" "k < 2 ^ 31"
  shows "bigval_ok (big_1wd_mpy a k)"
    and "big_uval (big_1wd_mpy a k) = (k * big_val a) mod 2 ^ 288"
proof -
  from assms have ok: "words_ok a" and n: "length a = 9"
    by (auto simp: bigval_ok_words)
  from big_1wd_mpy_loop_uval [OF ok assms(2,3), of 0]
  have R: "words_ok (big_1wd_mpy a k)" "length (big_1wd_mpy a k) = 9"
    "big_uval (big_1wd_mpy a k) = (k * big_uval a) mod 2 ^ 288"
    using n by (auto simp: big_1wd_mpy_def)
  show "bigval_ok (big_1wd_mpy a k)" using R by (simp add: bigval_ok_words)
  show "big_uval (big_1wd_mpy a k) = (k * big_val a) mod 2 ^ 288"
    unfolding R(3) big_uval_val_mod [OF assms(1)]
    by (simp add: mod_mult_right_eq)
qed

lemma big_val_msw:
  assumes "bigval_ok a"
  shows "big_val a = big_uval (take 8 a) + 2 ^ 256 * s32 (a ! 8)"
    and "0 \<le> big_uval (take 8 a)" and "big_uval (take 8 a) < 2 ^ 256"
proof -
  from assms have len: "length a = 9" and ok: "words_ok a"
    by (auto simp: bigval_ok_words)
  from len obtain a0 a1 a2 a3 a4 a5 a6 a7 a8 where a: "a = [a0, a1, a2, a3, a4, a5, a6, a7, a8]"
    by (rule length9_cases)
  have ok8: "words_ok (take 8 a)" and a8: "0 \<le> a8" "a8 < 2 ^ 32"
    using ok by (auto simp: a)
  from big_uval_bounds [OF ok8]
  show low: "0 \<le> big_uval (take 8 a)" "big_uval (take 8 a) < 2 ^ 256"
    by (auto simp: a)
  have u: "big_uval a = big_uval (take 8 a) + 2 ^ 256 * a8"
    by (simp add: a)
  show "big_val a = big_uval (take 8 a) + 2 ^ 256 * s32 (a ! 8)"
  proof (cases "a8 < 2 ^ 31")
    case True
    then have "big_uval a < 2 ^ 287" using low unfolding u by simp
    then show ?thesis using True a8 unfolding big_val_def u by (simp add: a s32_of_word)
  next
    case False
    then have "\<not> big_uval a < 2 ^ 287" using low unfolding u by simp
    then show ?thesis using False a8 unfolding big_val_def u by (simp add: a s32_of_word)
  qed
qed

lemma big_msw_div:
  assumes "bigval_ok a"
  shows "s32 (a ! 8) = big_val a div 2 ^ 256"
proof -
  note m = big_val_msw [OF assms]
  have "(big_uval (take 8 a) + 2 ^ 256 * s32 (a ! 8)) div 2 ^ 256 = s32 (a ! 8)"
    using m(2,3) by (simp add: div_pos_pos_trivial)
  then show ?thesis unfolding m(1) by simp
qed

lemma big_is_negative_iff:
  assumes "bigval_ok a"
  shows "big_is_negative a \<longleftrightarrow> big_val a < 0"
proof -
  note m = big_val_msw [OF assms]
  show ?thesis
  proof (cases "s32 (a ! 8) < 0")
    case True
    then have "2 ^ 256 * s32 (a ! 8) \<le> - (2 ^ 256)" by simp
    then show ?thesis using True m by (simp add: big_is_negative_def)
  next
    case False
    then have "0 \<le> 2 ^ 256 * s32 (a ! 8)" by simp
    then show ?thesis using False m by (simp add: big_is_negative_def)
  qed
qed

subsection \<open>Comparison and the moduli\<close>

lemma big_uval_append: "big_uval (xs @ ys) = big_uval xs + 2 ^ (32 * length xs) * big_uval ys"
  by (induction xs) (simp_all add: power_add algebra_simps)

lemma words_ok_rev [simp]: "words_ok (rev xs) = words_ok xs"
  by (simp add: words_ok_def)

lemma words_ok_take: "words_ok xs \<Longrightarrow> words_ok (take n xs)"
  unfolding words_ok_def list_all_iff by (auto dest: in_set_takeD)

lemma big_cmp_loop_rev:
  "length xs = length ys \<Longrightarrow> words_ok xs \<Longrightarrow> words_ok ys \<Longrightarrow>
   big_cmp_loop xs ys =
     (if big_uval (rev xs) > big_uval (rev ys) then 1
      else if big_uval (rev xs) < big_uval (rev ys) then - 1 else 0)"
proof (induction xs ys rule: list_induct2)
  case Nil
  show ?case by simp
next
  case (Cons x xs y ys)
  define B :: int where "B = 2 ^ (32 * length xs)"
  define U where "U = big_uval (rev xs)"
  define V where "V = big_uval (rev ys)"
  have ok: "words_ok xs" "words_ok ys" using Cons.prems by auto
  have U: "0 \<le> U" "U < B" using big_uval_bounds [of "rev xs"] ok by (auto simp: U_def B_def)
  have V: "0 \<le> V" "V < B" using big_uval_bounds [of "rev ys"] ok Cons.hyps by (auto simp: V_def B_def)
  have B: "0 < B" by (simp add: B_def)
  have ux: "big_uval (rev (x # xs)) = U + B * x"
    by (simp add: big_uval_append U_def B_def)
  have uy: "big_uval (rev (y # ys)) = V + B * y"
    using Cons.hyps by (simp add: big_uval_append V_def B_def)
  note IH = Cons.IH [OF ok, folded U_def V_def]
  consider "x > y" | "x < y" | "x = y" by linarith
  then show ?case
  proof cases
    case 1
    then have "B * (y + 1) \<le> B * x" using B by (intro mult_left_mono) auto
    then have "V + B * y < U + B * x" using U V by (simp add: algebra_simps)
    then show ?thesis using 1 unfolding ux uy by simp
  next
    case 2
    then have "B * (x + 1) \<le> B * y" using B by (intro mult_left_mono) auto
    then have "U + B * x < V + B * y" using U V by (simp add: algebra_simps)
    then show ?thesis using 2 unfolding ux uy by simp
  next
    case 3
    then show ?thesis using IH unfolding ux uy by simp
  qed
qed

lemma big_cmp_val:
  assumes "bigval_ok a" "bigval_ok b"
  shows "big_cmp a b =
     (if big_val a > big_val b then 1 else if big_val a < big_val b then - 1 else 0)"
proof -
  note ma = big_val_msw [OF assms(1)] and mb = big_val_msw [OF assms(2)]
  from assms have len: "length a = 9" "length b = 9" and ok: "words_ok a" "words_ok b"
    by (auto simp: bigval_ok_words)
  define ja where "ja = s32 (a ! 8)"
  define jb where "jb = s32 (b ! 8)"
  define la where "la = big_uval (take 8 a)"
  define lb where "lb = big_uval (take 8 b)"
  note va = ma [folded ja_def la_def] and vb = mb [folded jb_def lb_def]
  have lo: "big_cmp_loop (rev (take 8 a)) (rev (take 8 b)) =
     (if la > lb then 1 else if la < lb then - 1 else 0)"
    using big_cmp_loop_rev [of "rev (take 8 a)" "rev (take 8 b)"] len ok
    by (simp add: words_ok_take la_def lb_def)
  consider "ja > jb" | "ja < jb" | "ja = jb" by linarith
  then show ?thesis
  proof cases
    case 1
    then have "2 ^ 256 * (jb + 1) \<le> (2 ^ 256 :: int) * ja" by (intro mult_left_mono) auto
    then have "big_val a > big_val b" using va vb by (simp add: algebra_simps)
    then show ?thesis using 1 by (simp add: big_cmp_def ja_def jb_def)
  next
    case 2
    then have "2 ^ 256 * (ja + 1) \<le> (2 ^ 256 :: int) * jb" by (intro mult_left_mono) auto
    then have "big_val a < big_val b" using va vb by (simp add: algebra_simps)
    then show ?thesis using 2 by (simp add: big_cmp_def ja_def jb_def)
  next
    case 3
    then show ?thesis using lo va(1) vb(1) by (simp add: big_cmp_def ja_def [symmetric] jb_def [symmetric])
  qed
qed

lemma modulusP_ok: "bigval_ok modulusP" "big_val modulusP = p256"
  by (simp_all add: bigval_ok_def modulusP_def big_val_def p256_def)

lemma orderP_ok: "bigval_ok orderP" "big_val orderP = n256"
  by (simp_all add: bigval_ok_def orderP_def big_val_def n256_def)

lemma p256_bounds: "2 ^ 255 < p256" "p256 < 2 ^ 256"
  by (simp_all add: p256_def)

lemma n256_bounds: "2 ^ 255 < n256" "n256 < 2 ^ 256"
  by (simp_all add: n256_def)

subsection \<open>Exact reduction ends and is exact\<close>

definition modulus_ok :: "modulus_ref \<Rightarrow> bool" where
  "modulus_ok r =
     (case r of ModulusP_ref \<Rightarrow> True
      | Other_ref m \<Rightarrow> bigval_ok m \<and> 0 < big_val m \<and> big_val m < 2 ^ 256)"

lemma modulus_ok_deref:
  assumes "modulus_ok r"
  shows "bigval_ok (deref r)" "0 < big_val (deref r)" "big_val (deref r) < 2 ^ 256"
  using assms modulusP_ok p256_bounds
  by (auto simp: modulus_ok_def split: modulus_ref.splits)

lemma jD_bounds:
  fixes j D :: int
  assumes "- (2 ^ 31) \<le> j" "j < 2 ^ 31" "0 \<le> D" "D \<le> 2 ^ 256"
  shows "- (2 ^ 287) \<le> j * D" "j * D \<le> (2 ^ 31 - 1) * 2 ^ 256"
proof -
  have "(- j) * D \<le> 2 ^ 31 * 2 ^ 256"
  proof (cases "0 \<le> - j")
    case True
    then show ?thesis using assms by (intro mult_mono) auto
  next
    case False
    then have "(- j) * D \<le> 0" using assms by (simp add: mult_nonneg_nonneg)
    then show ?thesis by simp
  qed
  then show "- (2 ^ 287) \<le> j * D" by simp
  show "j * D \<le> (2 ^ 31 - 1) * 2 ^ 256"
  proof (cases "0 \<le> j")
    case True
    then show ?thesis using assms by (intro mult_mono) auto
  next
    case False
    then have "j * D \<le> 0" using assms by (simp add: mult_nonpos_nonneg)
    then show ?thesis by simp
  qed
qed

definition msw_step :: "modulus_ref \<Rightarrow> bigval \<Rightarrow> bigval" where
  "msw_step modulus src =
     (case modulus of
        Other_ref m \<Rightarrow> big_sub src (big_1wd_mpy m (s32 (src ! MSW)))
      | ModulusP_ref \<Rightarrow> big_adjustP src (s64 (- s32 (src ! MSW))))"

lemma reduce_msw_loop_unfold:
  "reduce_msw_loop modulus src =
     (if s32 (src ! MSW) \<noteq> 0 then reduce_msw_loop modulus (msw_step modulus src) else Some src)"
  by (subst reduce_msw_loop.simps) (simp add: msw_step_def split: modulus_ref.splits)

lemma msw_step_val:
  assumes "bigval_ok src" "modulus_ok modulus"
  shows "bigval_ok (msw_step modulus src)"
    and "big_val (msw_step modulus src)
       = big_val src - (big_val src div 2 ^ 256) * big_val (deref modulus)"
    and "big_val (msw_step modulus src)
       = big_uval (take 8 src) + (big_val src div 2 ^ 256) * (2 ^ 256 - big_val (deref modulus))"
proof -
  define j where "j = s32 (src ! 8)"
  define M where "M = big_val (deref modulus)"
  define lo where "lo = big_uval (take 8 src)"
  note m = big_val_msw [OF assms(1), folded j_def lo_def]
  note M = modulus_ok_deref [OF assms(2), folded M_def]
  have jd: "big_val src div 2 ^ 256 = j"
    using big_msw_div [OF assms(1)] by (simp add: j_def)
  have j: "- (2 ^ 31) \<le> j" "j < 2 ^ 31"
    using s32_range [of "src ! 8"] by (auto simp: j_def)
  have D: "0 \<le> 2 ^ 256 - M" "2 ^ 256 - M \<le> 2 ^ 256" using M by auto
  note b = jD_bounds [OF j D]
  have X: "big_val src - j * M = lo + j * (2 ^ 256 - M)"
    unfolding m(1) by (simp add: algebra_simps)
  have r: "- (2 ^ 287) \<le> big_val src - j * M" "big_val src - j * M < 2 ^ 287"
    unfolding X using b m(2,3) by auto
  have "bigval_ok (msw_step modulus src) \<and> big_uval (msw_step modulus src) = (big_val src - j * M) mod 2 ^ 288"
  proof (cases modulus)
    case ModulusP_ref
    have k: "s64 (- j) = - j" using j by (intro s64_id) auto
    have kb: "- (2 ^ 62) \<le> - j" "- j \<le> 2 ^ 62" using j by auto
    have Mp: "M = p256" using ModulusP_ref modulusP_ok by (simp add: M_def)
    show ?thesis
      using big_adjustP_ok_val [OF assms(1) kb]
      by (simp add: msw_step_def ModulusP_ref j_def [symmetric] k Mp)
  next
    case (Other_ref mm)
    then have mm: "bigval_ok mm" "big_val mm = M"
      using assms(2) by (auto simp: modulus_ok_def M_def)
    note w = big_1wd_mpy_ok_val [OF mm(1) j]
    have jm: "- (2 ^ 287) \<le> j * M" "j * M < 2 ^ 287"
      using jD_bounds [OF j, of M] M by auto
    have wv: "big_val (big_1wd_mpy mm j) = j * M"
      using w jm mm by (intro big_val_eqI) auto
    show ?thesis
      using big_sub_ok_val [OF assms(1) w(1)]
      by (simp add: msw_step_def Other_ref j_def [symmetric] wv)
  qed
  then have ok: "bigval_ok (msw_step modulus src)"
    and v: "big_val (msw_step modulus src) = big_val src - j * M"
    using r by (auto intro: big_val_eqI)
  show "bigval_ok (msw_step modulus src)" by (rule ok)
  show "big_val (msw_step modulus src) = big_val src - (big_val src div 2 ^ 256) * big_val (deref modulus)"
    unfolding jd using v by (simp add: M_def)
  show "big_val (msw_step modulus src)
       = big_uval (take 8 src) + (big_val src div 2 ^ 256) * (2 ^ 256 - big_val (deref modulus))"
    unfolding jd using v X by (simp add: M_def lo_def)
qed


definition msw_measure :: "bigval \<Rightarrow> nat" where
  "msw_measure src = (if big_val src div 2 ^ 256 = 0 then 0 else nat \<bar>big_val src\<bar>)"

lemma reduce_msw_loop_total:
  assumes mo: "modulus_ok modulus"
  shows "bigval_ok src \<Longrightarrow>
    \<exists>r. reduce_msw_loop modulus src = Some r \<and> bigval_ok r \<and> 0 \<le> big_val r \<and> big_val r < 2 ^ 256 \<and>
        big_val r mod big_val (deref modulus) = big_val src mod big_val (deref modulus)"
proof (induction "msw_measure src" arbitrary: src rule: less_induct)
  case less
  define j where "j = big_val src div 2 ^ 256"
  define M where "M = big_val (deref modulus)"
  define lo where "lo = big_uval (take 8 src)"
  note ok = less.prems
  have jm: "s32 (src ! 8) = j" using big_msw_div [OF ok] by (simp add: j_def)
  note m = big_val_msw [OF ok, unfolded jm, folded lo_def]
  note M = modulus_ok_deref [OF mo, folded M_def]
  show ?case
  proof (cases "j = 0")
    case True
    then have "reduce_msw_loop modulus src = Some src"
      by (subst reduce_msw_loop_unfold) (simp add: jm)
    then show ?thesis using ok m True by simp
  next
    case False
    let ?s = "msw_step modulus src"
    note st = msw_step_val [OF ok mo, folded j_def M_def lo_def]
    have lt: "msw_measure ?s < msw_measure src"
    proof (cases "0 < j")
      case True
      have "2 ^ 256 * 1 \<le> (2 ^ 256 :: int) * j" using True by (intro mult_left_mono) auto
      then have x: "0 < big_val src" using m by simp
      have "0 < j * M" using True M by (intro mult_pos_pos) auto
      then have d: "big_val ?s < big_val src" using st(2) by simp
      have "0 \<le> j * (2 ^ 256 - M)" using True M by (intro mult_nonneg_nonneg) auto
      then have "0 \<le> big_val ?s" using st(3) m by simp
      then have "nat \<bar>big_val ?s\<bar> < nat \<bar>big_val src\<bar>" using d x by simp
      moreover have "msw_measure ?s \<le> nat \<bar>big_val ?s\<bar>" by (simp add: msw_measure_def)
      moreover have "msw_measure src = nat \<bar>big_val src\<bar>"
        using False by (simp add: msw_measure_def j_def)
      ultimately show ?thesis by linarith
    next
      case F: False
      then have jn: "j < 0" using False by simp
      have "(2 ^ 256 :: int) * j \<le> 2 ^ 256 * (- 1)" using jn by (intro mult_left_mono) auto
      then have x: "big_val src < 0" using m by simp
      have "j * M < 0" using jn M by (intro mult_neg_pos) auto
      then have d: "big_val src < big_val ?s" using st(2) by simp
      have "j * (2 ^ 256 - M) < 0" using jn M by (intro mult_neg_pos) auto
      then have u: "big_val ?s < 2 ^ 256" using st(3) m by simp
      have ms: "msw_measure src = nat \<bar>big_val src\<bar>"
        using False by (simp add: msw_measure_def j_def)
      show ?thesis
      proof (cases "0 \<le> big_val ?s")
        case True
        then have "big_val ?s div 2 ^ 256 = 0" using u by (simp add: div_pos_pos_trivial)
        then have "msw_measure ?s = 0" by (simp add: msw_measure_def)
        then show ?thesis using ms x by simp
      next
        case False
        then have "nat \<bar>big_val ?s\<bar> < nat \<bar>big_val src\<bar>" using d x by simp
        moreover have "msw_measure ?s \<le> nat \<bar>big_val ?s\<bar>" by (simp add: msw_measure_def)
        ultimately show ?thesis using ms by linarith
      qed
    qed
    from less.hyps [OF lt st(1)] obtain r where r:
      "reduce_msw_loop modulus ?s = Some r" "bigval_ok r" "0 \<le> big_val r" "big_val r < 2 ^ 256"
      "big_val r mod M = big_val ?s mod M"
      by (auto simp: M_def)
    have "reduce_msw_loop modulus src = Some r"
      using False r(1) by (subst reduce_msw_loop_unfold) (simp add: jm)
    moreover have "(big_val src + (- j) * M) mod M = big_val src mod M"
      by (rule mod_mult_self1)
    then have "big_val ?s mod M = big_val src mod M"
      unfolding st(2) by simp
    ultimately show ?thesis using r by (simp add: M_def)
  qed
qed

lemma reduce_sub_loop_total:
  assumes m: "bigval_ok m" "0 < big_val m"
  shows "bigval_ok src \<Longrightarrow> 0 \<le> big_val src \<Longrightarrow>
    \<exists>r. reduce_sub_loop m src = Some r \<and> bigval_ok r \<and> big_val r = big_val src mod big_val m"
proof (induction "nat (big_val src)" arbitrary: src rule: less_induct)
  case less
  note c = big_cmp_val [OF less.prems(1) m(1)]
  show ?case
  proof (cases "big_val m \<le> big_val src")
    case True
    let ?s = "big_sub src m"
    note sb = big_sub_ok_val [OF less.prems(1) m(1)]
    have r: "- (2 ^ 287) \<le> big_val src - big_val m" "big_val src - big_val m < 2 ^ 287"
      using True m(2) big_val_range [OF less.prems(1)] by auto
    have v: "big_val ?s = big_val src - big_val m"
      using sb r by (intro big_val_eqI) auto
    have lt: "nat (big_val ?s) < nat (big_val src)" using v True m(2) by simp
    have nn: "0 \<le> big_val ?s" using v True by simp
    from less.hyps [OF lt sb(1) nn] obtain r where r:
      "reduce_sub_loop m ?s = Some r" "bigval_ok r" "big_val r = big_val ?s mod big_val m"
      by auto
    have "reduce_sub_loop m src = Some r"
      using True c r(1) by (subst reduce_sub_loop.simps) auto
    moreover have "big_val ?s mod big_val m = big_val src mod big_val m"
      unfolding v by simp
    ultimately show ?thesis using r by simp
  next
    case False
    then have "reduce_sub_loop m src = Some src"
      using c by (subst reduce_sub_loop.simps) auto
    moreover have "big_val src mod big_val m = big_val src"
      using False less.prems(2) by (intro mod_pos_pos_trivial) auto
    ultimately show ?thesis using less.prems by simp
  qed
qed

lemma reduce_add_loop_nonneg:
  assumes "bigval_ok src" "0 \<le> big_val src"
  shows "reduce_add_loop m src = Some src"
proof -
  have "\<not> big_is_negative src" using big_is_negative_iff [OF assms(1)] assms(2) by simp
  then show ?thesis
    by (subst reduce_add_loop.simps) (simp add: big_is_negative_def)
qed

lemma big_precise_reduce_total:
  assumes "bigval_ok a" "modulus_ok modulus"
  shows "\<exists>r. big_precise_reduce a modulus = Some r \<and> bigval_ok r \<and>
     big_val r = big_val a mod big_val (deref modulus)"
proof -
  note M = modulus_ok_deref [OF assms(2)]
  from reduce_msw_loop_total [OF assms(2,1)] obtain s1 where s1:
    "reduce_msw_loop modulus a = Some s1" "bigval_ok s1" "0 \<le> big_val s1"
    "big_val s1 mod big_val (deref modulus) = big_val a mod big_val (deref modulus)"
    by auto
  from reduce_sub_loop_total [OF M(1,2) s1(2,3)] obtain s2 where s2:
    "reduce_sub_loop (deref modulus) s1 = Some s2" "bigval_ok s2"
    "big_val s2 = big_val s1 mod big_val (deref modulus)"
    by auto
  have nn: "0 \<le> big_val s2" unfolding s2(3) using M(2) by simp
  have "big_precise_reduce a modulus = Some s2"
    by (simp add: big_precise_reduce_def s1(1) s2(1) reduce_add_loop_nonneg [OF s2(2) nn])
  then show ?thesis using s2 s1(4) by simp
qed

text \<open>
  Claim C4. For every representable value \<open>a\<close> and for each of the two supported moduli,
  the curve modulus and the curve order, \<open>big_precise_reduce\<close> ends and returns a
  representable value that is congruent to \<open>a\<close> modulo the modulus and lies in the canonical
  range from 0 up to, and not including, the modulus; in other words it returns the
  residue of \<open>a\<close>.
\<close>

theorem C4_big_precise_reduce:
  assumes "bigval_ok a"
  shows "(\<exists>r. big_precise_reduce a ModulusP_ref = Some r \<and> bigval_ok r \<and>
            0 \<le> big_val r \<and> big_val r < p256 \<and> big_val r mod p256 = big_val a mod p256) \<and>
         (\<exists>r. big_precise_reduce a OrderP_ref = Some r \<and> bigval_ok r \<and>
            0 \<le> big_val r \<and> big_val r < n256 \<and> big_val r mod n256 = big_val a mod n256)"
proof
  have "modulus_ok ModulusP_ref" by (simp add: modulus_ok_def)
  from big_precise_reduce_total [OF assms this] obtain r where
    r: "big_precise_reduce a ModulusP_ref = Some r" "bigval_ok r" "big_val r = big_val a mod p256"
    by (auto simp: modulusP_ok)
  have "0 \<le> big_val r" "big_val r < p256" "big_val r mod p256 = big_val a mod p256"
    unfolding r(3) using p256_bounds by auto
  then show "\<exists>r. big_precise_reduce a ModulusP_ref = Some r \<and> bigval_ok r \<and>
            0 \<le> big_val r \<and> big_val r < p256 \<and> big_val r mod p256 = big_val a mod p256"
    using r by blast
next
  have "modulus_ok OrderP_ref"
    using orderP_ok n256_bounds by (simp add: modulus_ok_def OrderP_ref_def)
  from big_precise_reduce_total [OF assms this] obtain r where
    r: "big_precise_reduce a OrderP_ref = Some r" "bigval_ok r" "big_val r = big_val a mod n256"
    by (auto simp: orderP_ok OrderP_ref_def)
  have "0 \<le> big_val r" "big_val r < n256" "big_val r mod n256 = big_val a mod n256"
    unfolding r(3) using n256_bounds by auto
  then show "\<exists>r. big_precise_reduce a OrderP_ref = Some r \<and> bigval_ok r \<and>
            0 \<le> big_val r \<and> big_val r < n256 \<and> big_val r mod n256 = big_val a mod n256"
    using r by blast
qed

text \<open>The theorem at the value \<open>-1\<close>, whose nine words are all \<open>0xffffffff\<close>.\<close>

definition big_minus_one :: bigval where
  "big_minus_one = [0xffffffff, 0xffffffff, 0xffffffff, 0xffffffff, 0xffffffff,
                    0xffffffff, 0xffffffff, 0xffffffff, 0xffffffff]"

theorem C4_big_precise_reduce_witness:
  "bigval_ok big_minus_one \<and> big_val big_minus_one = - 1 \<and>
   (\<exists>r. big_precise_reduce big_minus_one ModulusP_ref = Some r \<and> bigval_ok r \<and>
        0 \<le> big_val r \<and> big_val r < p256 \<and> big_val r mod p256 = big_val big_minus_one mod p256) \<and>
   (\<exists>r. big_precise_reduce big_minus_one OrderP_ref = Some r \<and> bigval_ok r \<and>
        0 \<le> big_val r \<and> big_val r < n256 \<and> big_val r mod n256 = big_val big_minus_one mod n256)"
proof -
  have ok: "bigval_ok big_minus_one"
    by (simp add: bigval_ok_def big_minus_one_def)
  have v: "big_val big_minus_one = - 1"
    by (simp add: big_val_def big_minus_one_def)
  show ?thesis
    using ok v C4_big_precise_reduce [OF ok] by blast
qed

section \<open>Properties of the point operations\<close>

subsection \<open>Results of the multiplication are representable\<close>

lemma foldl_fst_length:
  assumes "\<And>st i. length (fst (f st i)) = length (fst st)"
  shows "length (fst (foldl f st xs)) = length (fst st)"
  by (induction xs arbitrary: st) (simp_all add: assms)

lemma foldl_length:
  assumes "\<And>w i. length (f w i) = length w"
  shows "length (foldl f w xs) = length w"
  by (induction xs arbitrary: w) (simp_all add: assms)

lemma length_carry_out [simp]: "length (fst (carry_out st i)) = length (fst st)"
  by (simp add: carry_out_def Let_def)

lemma length_mpy_column [simp]: "length (fst (mpy_column a b aw bw st i)) = length (fst st)"
  unfolding mpy_column_def Let_def by (simp only: length_carry_out fst_conv)

lemma length_sqr_column [simp]: "length (fst (sqr_column a aw st i)) = length (fst st)"
  unfolding sqr_column_def Let_def by (simp only: length_carry_out fst_conv)

lemma length_residual_out [simp]: "length (fst (residual_out st i)) = length (fst st)"
  by (simp add: residual_out_def Let_def)

lemma length_mpy_unsigned [simp]: "length (mpy_unsigned same a b) = 18"
  by (simp add: mpy_unsigned_def Let_def foldl_fst_length split_def)

lemma length_sub_words [simp]: "length (sub_words w b) = length w"
  by (simp add: sub_words_def foldl_length)

lemma length_mpy_signed [simp]: "length (mpy_signed w a b) = length w"
  unfolding mpy_signed_def Let_def
  by (simp only: length_list_update length_sub_words if_distrib [of length] if_cancel)

lemma length_reduce_word [simp]: "length (reduce_word w i) = length w"
  unfolding reduce_word_def Let_def
  by (simp only: length_list_update if_distrib [of length] if_cancel)

lemma length_reduce_modulus [simp]: "length (reduce_modulus w) = length w"
  by (simp add: reduce_modulus_def foldl_length)

lemma copy_out_ok: "words_ok (copy_out s ws) \<and> length (copy_out s ws) = length ws"
  by (induction ws arbitrary: s) (simp_all add: Let_def)

lemma big_zero_ok: "bigval_ok big_zero" "big_val big_zero = 0"
  by (simp_all add: bigval_ok_def big_zero_def big_val_def)

lemma big_one_ok: "bigval_ok big_one" "big_val big_one = 1"
  by (simp_all add: bigval_ok_def big_one_def big_val_def)

lemma big_approx_reduceP_ok:
  assumes "bigval_ok a"
  shows "bigval_ok (big_approx_reduceP a)"
proof -
  have j: "- (2 ^ 31) \<le> s32 (a ! 8)" "s32 (a ! 8) < 2 ^ 31"
    using s32_range [of "a ! 8"] by auto
  have k: "s64 (- s32 (a ! 8)) = - s32 (a ! 8)" using j by (intro s64_id) auto
  show ?thesis
    unfolding big_approx_reduceP_def k using j by (intro big_adjustP_uval(1) assms) auto
qed

lemma big_mpyP_at_MOD_MODULUS:
  "big_mpyP_at same a b MOD_MODULUS =
     (if big_is_zero a \<or> big_is_zero b then big_zero
      else big_approx_reduceP
        (copy_out 0 (take 9 (reduce_modulus (mpy_signed (mpy_unsigned same a b) a b)))))"
  by (simp add: big_mpyP_at_def Let_def)

lemma big_mpyP_at_modulus_ok: "bigval_ok (big_mpyP_at same a b MOD_MODULUS)"
proof -
  let ?w = "reduce_modulus (mpy_signed (mpy_unsigned same a b) a b)"
  have "bigval_ok (copy_out 0 (take 9 ?w))"
    using copy_out_ok [of 0 "take 9 ?w"] by (simp add: bigval_ok_words)
  then have "bigval_ok (big_approx_reduceP (copy_out 0 (take 9 ?w)))"
    by (rule big_approx_reduceP_ok)
  then show ?thesis
    unfolding big_mpyP_at_MOD_MODULUS by (simp add: big_zero_ok)
qed

definition precisely_reduced :: "bigval \<Rightarrow> bool" where
  "precisely_reduced z \<longleftrightarrow> bigval_ok z \<and> 0 \<le> big_val z \<and> big_val z < p256"

lemma precise_reduce_modulusP:
  assumes "bigval_ok a"
  obtains r where "big_precise_reduce a ModulusP_ref = Some r" "precisely_reduced r"
    "big_val r = big_val a mod p256"
proof -
  have "modulus_ok ModulusP_ref" by (simp add: modulus_ok_def)
  from big_precise_reduce_total [OF assms this] obtain r where
    r: "big_precise_reduce a ModulusP_ref = Some r" "bigval_ok r" "big_val r = big_val a mod p256"
    by (auto simp: modulusP_ok)
  have "0 \<le> big_val r" "big_val r < p256"
    unfolding r(3) using p256_bounds by auto
  then show ?thesis using r that by (simp add: precisely_reduced_def)
qed

lemma pointDouble_Z: "\<exists>T. pointDouble P = Some T \<and> precisely_reduced (jac_Z T)"
proof (cases "jacobian_point_is_infinity P")
  case True
  then show ?thesis
    by (simp add: pointDouble_def jacobian_infinity_def precisely_reduced_def big_zero_ok p256_def)
next
  case False
  define z3 where "z3 = big_mpyP (big_addP (jac_Y P) (jac_Y P)) (jac_Z P) MOD_MODULUS"
  have "bigval_ok z3" by (simp add: z3_def big_mpyP_def big_mpyP_at_modulus_ok)
  then obtain r where "big_precise_reduce z3 ModulusP_ref = Some r" "precisely_reduced r"
    by (rule precise_reduce_modulusP)
  then show ?thesis
    using False unfolding pointDouble_def Let_def z3_def [symmetric] by simp
qed

subsection \<open>Tripling and halving\<close>

lemma big_triple_loop_uval:
  "words_ok as \<Longrightarrow> 0 \<le> v \<Longrightarrow> v < 2 ^ 32 \<Longrightarrow>
   words_ok (big_triple_loop v as) \<and> length (big_triple_loop v as) = length as \<and>
   big_uval (big_triple_loop v as) = (v + 3 * big_uval as) mod 2 ^ (32 * length as)"
proof (induction as arbitrary: v)
  case Nil
  then show ?case by simp
next
  case (Cons a as)
  then have r: "0 \<le> a" "a < 2 ^ 32" and ok: "words_ok as" by auto
  define t where "t = v + 3 * a"
  have t: "0 \<le> t" "t < 2 ^ 34" using r Cons.prems(2,3) by (auto simp: t_def)
  have u1: "u64 (v + a) = v + a" using r Cons.prems(2,3) by (intro u64_id) auto
  have u2: "u64 (v + a + a) = v + a + a" using r Cons.prems(2,3) by (intro u64_id) auto
  have u3: "u64 (v + a + a + a) = t" using t by (simp add: t_def u64_id)
  have c: "0 \<le> t div 2 ^ 32" "t div 2 ^ 32 < 2 ^ 32"
    using t by (auto simp: pos_imp_zdiv_nonneg_iff div_less_iff_less_mult)
  note IH = Cons.IH [OF ok c]
  have step: "big_triple_loop v (a # as) = u32 t # big_triple_loop (t div 2 ^ 32) as"
    unfolding big_triple_loop.simps Let_def u1 u2 u3 ..
  have "big_uval (big_triple_loop v (a # as))
      = t mod 2 ^ 32 + 2 ^ 32 * ((t div 2 ^ 32 + 3 * big_uval as) mod 2 ^ (32 * length as))"
    using IH by (simp add: step u32_def algebra_simps del: big_triple_loop.simps)
  also have "\<dots> = (t + 2 ^ 32 * (3 * big_uval as)) mod 2 ^ (32 * Suc (length as))"
    by (rule carry_mod32 [symmetric])
  also have "t + 2 ^ 32 * (3 * big_uval as) = v + 3 * big_uval (a # as)"
    by (simp add: t_def algebra_simps)
  finally have val: "big_uval (big_triple_loop v (a # as))
      = (v + 3 * big_uval (a # as)) mod 2 ^ (32 * length (a # as))"
    by simp
  show ?case
    using IH val by (simp add: step del: big_triple_loop.simps)
qed

lemma big_triple_ok_val:
  assumes "bigval_ok a"
  shows "bigval_ok (big_triple a)"
    and "big_uval (big_triple a) = (3 * big_val a) mod 2 ^ 288"
proof -
  from assms have ok: "words_ok a" and n: "length a = 9"
    by (auto simp: bigval_ok_words)
  from big_triple_loop_uval [OF ok, of 0]
  have R: "words_ok (big_triple a)" "length (big_triple a) = 9"
    "big_uval (big_triple a) = (3 * big_uval a) mod 2 ^ 288"
    using n by (auto simp: big_triple_def)
  show "bigval_ok (big_triple a)" using R by (simp add: bigval_ok_words)
  show "big_uval (big_triple a) = (3 * big_val a) mod 2 ^ 288"
    unfolding R(3) big_uval_val_mod [OF assms(1)]
    by (simp add: mod_mult_right_eq)
qed

lemma or_top_bit:
  fixes a :: int
  assumes "0 \<le> a" "a < 2 ^ 31"
  shows "or a (2 ^ 31) = a + 2 ^ 31"
proof -
  have "\<not> bit a n \<or> \<not> bit (2 ^ 31 :: int) n" for n
  proof (cases "n = 31")
    case True
    have "a div 2 ^ 31 = 0" using assms by (simp add: div_pos_pos_trivial)
    then show ?thesis unfolding True by (simp add: bit_iff_odd)
  next
    case False
    have "bit (2 ^ 31 :: int) n \<longleftrightarrow> possible_bit TYPE(int) n \<and> n = 31"
      by (rule bit_exp_iff)
    then show ?thesis using False by blast
  qed
  then have "and a (2 ^ 31) = 0"
    by (intro bit_eqI) (simp add: bit_and_iff)
  then show ?thesis by (rule disjunctive_add_eq_or [symmetric])
qed

lemma halve_word:
  assumes "0 \<le> x" "x < 2 ^ 32" "s = 0 \<or> s = 1"
  shows "or (x div 2) (u32 (s * 2 ^ 31)) = x div 2 + s * 2 ^ 31"
    and "0 \<le> x div 2 + s * 2 ^ 31" and "x div 2 + s * 2 ^ 31 < 2 ^ 32"
proof -
  have h: "0 \<le> x div 2" "x div 2 < 2 ^ 31" using assms by auto
  show "or (x div 2) (u32 (s * 2 ^ 31)) = x div 2 + s * 2 ^ 31"
    using assms(3) or_top_bit [OF h] by (auto simp: u32_def)
  show "0 \<le> x div 2 + s * 2 ^ 31" "x div 2 + s * 2 ^ 31 < 2 ^ 32"
    using h assms(3) by auto
qed

lemma big_halve_loop_uval:
  "words_ok xs \<Longrightarrow> s = 0 \<or> s = 1 \<Longrightarrow>
   words_ok (big_halve_loop s (rev xs)) \<and> length (big_halve_loop s (rev xs)) = length xs \<and>
   big_uval (rev (big_halve_loop s (rev xs))) = (big_uval xs + s * 2 ^ (32 * length xs)) div 2"
proof (induction xs arbitrary: s rule: rev_induct)
  case Nil
  then show ?case by auto
next
  case (snoc x ys)
  then have r: "0 \<le> x" "x < 2 ^ 32" and ok: "words_ok ys"
    by (auto simp: words_ok_def)
  define B :: int where "B = 2 ^ (32 * length ys)"
  note hw = halve_word [OF r snoc.prems(2)]
  have m: "x mod 2 = 0 \<or> x mod 2 = 1" by auto
  note IH = snoc.IH [OF ok m, folded B_def]
  have step: "big_halve_loop s (rev (ys @ [x]))
      = (x div 2 + s * 2 ^ 31) # big_halve_loop (x mod 2) (rev ys)"
    unfolding rev_append rev.simps append.simps big_halve_loop.simps hw(1) ..
  have "big_uval (rev (big_halve_loop s (rev (ys @ [x]))))
      = (big_uval ys + x mod 2 * B) div 2 + B * (x div 2 + s * 2 ^ 31)"
    unfolding step using IH by (simp add: big_uval_append B_def)
  also have "\<dots> = (big_uval ys + x mod 2 * B + 2 * (B * (x div 2 + s * 2 ^ 31))) div 2"
    by simp
  also have "big_uval ys + x mod 2 * B + 2 * (B * (x div 2 + s * 2 ^ 31))
      = big_uval ys + B * x + s * (B * 2 ^ 32)"
  proof -
    have "B * x = B * (2 * (x div 2) + x mod 2)" by simp
    also have "\<dots> = B * (x mod 2) + B * (2 * (x div 2))" by (simp only: distrib_left add.commute)
    finally show ?thesis by (simp add: algebra_simps)
  qed
  also have "big_uval ys + B * x + s * (B * 2 ^ 32)
      = big_uval (ys @ [x]) + s * 2 ^ (32 * length (ys @ [x]))"
    by (simp add: big_uval_append B_def power_add algebra_simps)
  finally have val: "big_uval (rev (big_halve_loop s (rev (ys @ [x]))))
      = (big_uval (ys @ [x]) + s * 2 ^ (32 * length (ys @ [x]))) div 2" .
  show ?case
    using IH val hw(2,3) unfolding step by simp
qed

lemma s32_u32_id: "- (2 ^ 31) \<le> y \<Longrightarrow> y < 2 ^ 31 \<Longrightarrow> s32 (u32 y) = y"
  unfolding s32_def u32_def by (simp add: mod_add_left_eq)

lemma s32_mod2: "0 \<le> x \<Longrightarrow> x < 2 ^ 32 \<Longrightarrow> s32 x mod 2 = x mod 2"
  by (auto simp: s32_of_word) presburger

lemma split_half:
  fixes C j :: int
  shows "C * j = (j mod 2) * C + 2 * (C * (j div 2))"
proof -
  define q where "q = j div 2"
  define r where "r = j mod 2"
  have "j = 2 * q + r" by (simp add: q_def r_def)
  then have "C * j = C * (2 * q + r)" by (rule arg_cong)
  also have "\<dots> = r * C + 2 * (C * q)" by (simp add: algebra_simps)
  finally show ?thesis by (simp only: q_def r_def)
qed

lemma big_halve_ok_val:
  assumes "bigval_ok a"
  shows "bigval_ok (big_halve a)" and "big_val (big_halve a) = big_val a div 2"
proof -
  from assms have len: "length a = 9" and ok: "words_ok a"
    by (auto simp: bigval_ok_words)
  define lo where "lo = take 8 a"
  define j where "j = s32 (a ! 8)"
  have a8: "0 \<le> a ! 8" "a ! 8 < 2 ^ 32"
    using ok len unfolding words_ok_def list_all_length by auto
  have lo: "words_ok lo" "length lo = 8" using ok len by (auto simp: lo_def words_ok_take)
  have s: "a ! 8 mod 2 = 0 \<or> a ! 8 mod 2 = 1" by auto
  note L = big_halve_loop_uval [OF lo(1) s]
  define lo' where "lo' = rev (big_halve_loop (a ! 8 mod 2) (rev lo))"
  have lo': "words_ok lo'" "length lo' = 8"
    "big_uval lo' = (big_uval lo + (a ! 8 mod 2) * 2 ^ 256) div 2"
    using L lo(2) by (auto simp: lo'_def)
  have jr: "- (2 ^ 31) \<le> j" "j < 2 ^ 31" using s32_range [of "a ! 8"] by (auto simp: j_def)
  then have jh: "- (2 ^ 31) \<le> j div 2" "j div 2 < 2 ^ 31" by auto
  have h: "big_halve a = lo' @ [u32 (j div 2)]"
    by (simp add: big_halve_def lo'_def lo_def j_def)
  show okh: "bigval_ok (big_halve a)"
    unfolding h using lo' by (simp add: bigval_ok_words words_ok_def)
  have t8: "take 8 (big_halve a) = lo'" "big_halve a ! 8 = u32 (j div 2)"
    unfolding h using lo'(2) by (auto simp: nth_append)
  have "big_val (big_halve a) = big_uval lo' + 2 ^ 256 * s32 (u32 (j div 2))"
    using big_val_msw(1) [OF okh] unfolding t8 .
  also have "s32 (u32 (j div 2)) = j div 2" using jh by (rule s32_u32_id)
  finally have v: "big_val (big_halve a)
      = (big_uval lo + (a ! 8 mod 2) * 2 ^ 256) div 2 + 2 ^ 256 * (j div 2)"
    by (simp add: lo'(3))
  have jm: "a ! 8 mod 2 = j mod 2" unfolding j_def using a8 by (simp add: s32_mod2)
  have "big_val a = big_uval lo + 2 ^ 256 * j"
    using big_val_msw(1) [OF assms] by (simp add: lo_def j_def)
  also have "\<dots> = big_uval lo + (j mod 2) * 2 ^ 256 + 2 * (2 ^ 256 * (j div 2))"
    by (simp only: split_half [of "2 ^ 256" j] add.assoc)
  finally have "big_val a div 2 = (big_uval lo + (j mod 2) * 2 ^ 256) div 2 + 2 ^ 256 * (j div 2)"
    by simp
  then show "big_val (big_halve a) = big_val a div 2"
    using v jm by simp
qed

subsection \<open>Doubling and addition return points with an exactly reduced Z\<close>

lemma big_addP_ok: "bigval_ok a \<Longrightarrow> bigval_ok b \<Longrightarrow> bigval_ok (big_addP a b)"
  by (simp add: big_addP_def big_approx_reduceP_ok big_add_ok_val(1))

lemma big_subP_ok: "bigval_ok a \<Longrightarrow> bigval_ok b \<Longrightarrow> bigval_ok (big_subP a b)"
  by (simp add: big_subP_def big_approx_reduceP_ok big_sub_ok_val(1))

lemma big_mpyP_ok: "bigval_ok (big_mpyP a b MOD_MODULUS)"
  by (simp add: big_mpyP_def big_mpyP_at_modulus_ok)

lemma big_sqrP_ok: "bigval_ok (big_sqrP a)"
  by (simp add: big_sqrP_def big_mpyP_at_modulus_ok)

lemma big_halveP_ok: "bigval_ok a \<Longrightarrow> bigval_ok (big_halveP a)"
  by (simp add: big_halveP_def big_halve_ok_val(1) big_adjustP_uval(1))

definition jacobian_ok :: "jacobian_point_t \<Rightarrow> bool" where
  "jacobian_ok P \<longleftrightarrow> bigval_ok (jac_X P) \<and> bigval_ok (jac_Y P) \<and> bigval_ok (jac_Z P)"

definition affine_ok :: "affine_point_t \<Rightarrow> bool" where
  "affine_ok Q \<longleftrightarrow> bigval_ok (aff_x Q) \<and> bigval_ok (aff_y Q)"

lemma precisely_reduced_zero: "precisely_reduced big_zero"
  by (simp add: precisely_reduced_def big_zero_ok p256_def)

lemma precisely_reduced_one: "precisely_reduced big_one"
  by (simp add: precisely_reduced_def big_one_ok p256_def)

lemma jacobian_infinity_ok: "jacobian_ok jacobian_infinity"
  by (simp add: jacobian_ok_def jacobian_infinity_def big_one_ok big_zero_ok)

lemma toJacobian_ok: "affine_ok Q \<Longrightarrow> jacobian_ok (toJacobian Q)"
  by (simp add: jacobian_ok_def affine_ok_def toJacobian_def big_one_ok)

lemma pointDouble_total:
  assumes "jacobian_ok P"
  shows "\<exists>T. pointDouble P = Some T \<and> jacobian_ok T \<and> precisely_reduced (jac_Z T)"
proof (cases "jacobian_point_is_infinity P")
  case True
  then show ?thesis
    by (simp add: pointDouble_def jacobian_infinity_ok)
      (simp add: jacobian_infinity_def precisely_reduced_zero)
next
  case False
  from assms have ok: "bigval_ok (jac_X P)" "bigval_ok (jac_Y P)" "bigval_ok (jac_Z P)"
    by (auto simp: jacobian_ok_def)
  define z3 where "z3 = big_mpyP (big_addP (jac_Y P) (jac_Y P)) (jac_Z P) MOD_MODULUS"
  have "bigval_ok z3" by (simp add: z3_def big_mpyP_ok)
  then obtain r where r: "big_precise_reduce z3 ModulusP_ref = Some r" "precisely_reduced r"
    by (rule precise_reduce_modulusP)
  have rok: "bigval_ok r" using r(2) by (simp add: precisely_reduced_def)
  show ?thesis
    using False r rok ok unfolding pointDouble_def Let_def z3_def [symmetric]
    by (simp add: jacobian_ok_def big_subP_ok big_addP_ok big_halveP_ok big_mpyP_ok big_sqrP_ok)
qed

lemma pointAdd_total:
  assumes "jacobian_ok P" "affine_ok Q"
  shows "\<exists>T. pointAdd P Q = Some T \<and> jacobian_ok T \<and>
           (if aff_infinity Q then T = P else precisely_reduced (jac_Z T))"
proof -
  from assms have ok: "bigval_ok (jac_X P)" "bigval_ok (jac_Y P)" "bigval_ok (jac_Z P)"
    "bigval_ok (aff_x Q)" "bigval_ok (aff_y Q)"
    by (auto simp: jacobian_ok_def affine_ok_def)
  consider "aff_infinity Q" | "\<not> aff_infinity Q" "jacobian_point_is_infinity P"
    | "\<not> aff_infinity Q" "\<not> jacobian_point_is_infinity P" by blast
  then show ?thesis
  proof cases
    case 1
    then show ?thesis using assms(1) by (simp add: pointAdd_def)
  next
    case 2
    then show ?thesis
      using toJacobian_ok [OF assms(2)]
      by (simp add: pointAdd_def) (simp add: toJacobian_def precisely_reduced_one)
  next
    case 3
    define t1 where "t1 = big_subP (big_mpyP (big_sqrP (jac_Z P)) (aff_x Q) MOD_MODULUS) (jac_X P)"
    define t2 where "t2 = big_subP
      (big_mpyP (big_mpyP (big_sqrP (jac_Z P)) (jac_Z P) MOD_MODULUS) (aff_y Q) MOD_MODULUS) (jac_Y P)"
    have t12: "bigval_ok t1" "bigval_ok t2"
      using ok by (simp_all add: t1_def t2_def big_subP_ok big_mpyP_ok)
    obtain r1 where r1: "big_precise_reduce t1 ModulusP_ref = Some r1" "precisely_reduced r1"
      using t12(1) by (rule precise_reduce_modulusP)
    obtain r2 where r2: "big_precise_reduce t2 ModulusP_ref = Some r2" "precisely_reduced r2"
      using t12(2) by (rule precise_reduce_modulusP)
    obtain z3 where z3: "big_precise_reduce (big_mpyP (jac_Z P) r1 MOD_MODULUS) ModulusP_ref = Some z3"
      "precisely_reduced z3"
      using big_mpyP_ok by (rule precise_reduce_modulusP)
    have rok: "bigval_ok r1" "bigval_ok r2" "bigval_ok z3"
      using r1(2) r2(2) z3(2) by (simp_all add: precisely_reduced_def)
    have eq: "pointAdd P Q =
      (if big_is_zero r1 then
         (if big_is_zero r2 then pointDouble (toJacobian Q) else Some jacobian_infinity)
       else
         Some \<lparr>jac_X = big_subP (big_subP (big_sqrP t2)
                    (big_addP (big_mpyP (big_sqrP r1) (jac_X P) MOD_MODULUS)
                              (big_mpyP (big_sqrP r1) (jac_X P) MOD_MODULUS)))
                    (big_mpyP (big_sqrP r1) r1 MOD_MODULUS),
               jac_Y = big_subP
                 (big_mpyP
                    (big_subP (big_mpyP (big_sqrP r1) (jac_X P) MOD_MODULUS)
                       (big_subP (big_subP (big_sqrP t2)
                          (big_addP (big_mpyP (big_sqrP r1) (jac_X P) MOD_MODULUS)
                                    (big_mpyP (big_sqrP r1) (jac_X P) MOD_MODULUS)))
                          (big_mpyP (big_sqrP r1) r1 MOD_MODULUS)))
                    t2 MOD_MODULUS)
                 (big_mpyP (big_mpyP (big_sqrP r1) r1 MOD_MODULUS) (jac_Y P) MOD_MODULUS),
               jac_Z = z3\<rparr>)"
      using 3 unfolding pointAdd_def Let_def t1_def [symmetric] t2_def [symmetric]
      by (simp add: r1 r2 z3)
    show ?thesis
    proof (cases "big_is_zero r1")
      case True
      show ?thesis
      proof (cases "big_is_zero r2")
        case T2: True
        from pointDouble_total [OF toJacobian_ok [OF assms(2)]]
        show ?thesis using True T2 3 by (simp add: eq)
      next
        case False
        then show ?thesis using True 3
          by (simp add: eq jacobian_infinity_ok) (simp add: jacobian_infinity_def precisely_reduced_zero)
      qed
    next
      case False
      then show ?thesis using 3 z3 rok ok
        by (simp add: eq jacobian_ok_def big_subP_ok big_addP_ok big_mpyP_ok big_sqrP_ok)
    qed
  qed
qed

text \<open>A chain of doublings and additions, applied from left to right.\<close>

datatype point_op = Double | Add affine_point_t

fun apply_ops :: "point_op list \<Rightarrow> jacobian_point_t \<Rightarrow> jacobian_point_t option" where
  "apply_ops [] P = Some P"
| "apply_ops (Double # ops) P = Option.bind (pointDouble P) (apply_ops ops)"
| "apply_ops (Add Q # ops) P = Option.bind (pointAdd P Q) (apply_ops ops)"

fun op_ok :: "point_op \<Rightarrow> bool" where
  "op_ok Double = True"
| "op_ok (Add Q) = affine_ok Q"

lemma apply_ops_total:
  "jacobian_ok P \<Longrightarrow> precisely_reduced (jac_Z P) \<Longrightarrow> list_all op_ok ops \<Longrightarrow>
   \<exists>T. apply_ops ops P = Some T \<and> jacobian_ok T \<and> precisely_reduced (jac_Z T)"
proof (induction ops arbitrary: P)
  case Nil
  then show ?case by simp
next
  case (Cons o1 ops)
  show ?case
  proof (cases o1)
    case Double
    from pointDouble_total [OF Cons.prems(1)] obtain T where
      T: "pointDouble P = Some T" "jacobian_ok T" "precisely_reduced (jac_Z T)" by blast
    from Cons.IH [OF T(2,3)] Cons.prems(3) show ?thesis
      by (simp add: Double T(1))
  next
    case (Add Q)
    then have Q: "affine_ok Q" using Cons.prems(3) by simp
    from pointAdd_total [OF Cons.prems(1) Q] obtain T where
      T: "pointAdd P Q = Some T" "jacobian_ok T"
        "if aff_infinity Q then T = P else precisely_reduced (jac_Z T)" by blast
    have "precisely_reduced (jac_Z T)"
      using T(3) Cons.prems(2) by (cases "aff_infinity Q") simp_all
    from Cons.IH [OF T(2) this] Cons.prems(3) show ?thesis
      by (simp add: Add T(1))
  qed
qed

text \<open>
  Claim C6. For points with representable coordinates: \<open>pointDouble\<close> always returns a
  point whose Z is exactly reduced (\<open>0 \<le> Z < p256\<close>); \<open>pointAdd\<close> always returns a point,
  which is \<open>P\<close> unchanged when \<open>Q\<close> is the infinite point and has an exactly reduced Z in
  every other branch, among them the general and the doubling branch; so \<open>pointAdd\<close> keeps
  an exactly reduced Z exactly reduced, and every chain of doublings and additions that
  starts from a point with exactly reduced Z ends in such a point.
\<close>

theorem C6_precise_Z:
  assumes "jacobian_ok P" "affine_ok Q"
  shows "(\<exists>T. pointDouble P = Some T \<and> jacobian_ok T \<and> precisely_reduced (jac_Z T)) \<and>
         (\<exists>T. pointAdd P Q = Some T \<and> jacobian_ok T \<and>
              (aff_infinity Q \<longrightarrow> T = P) \<and>
              (\<not> aff_infinity Q \<longrightarrow> precisely_reduced (jac_Z T)) \<and>
              (precisely_reduced (jac_Z P) \<longrightarrow> precisely_reduced (jac_Z T))) \<and>
         (precisely_reduced (jac_Z P) \<and> list_all op_ok ops \<longrightarrow>
            (\<exists>T. apply_ops ops P = Some T \<and> jacobian_ok T \<and> precisely_reduced (jac_Z T)))"
proof (intro conjI impI)
  show "\<exists>T. pointDouble P = Some T \<and> jacobian_ok T \<and> precisely_reduced (jac_Z T)"
    by (rule pointDouble_total [OF assms(1)])
next
  from pointAdd_total [OF assms] obtain T where
    T: "pointAdd P Q = Some T" "jacobian_ok T"
      "if aff_infinity Q then T = P else precisely_reduced (jac_Z T)" by blast
  have "aff_infinity Q \<longrightarrow> T = P" "\<not> aff_infinity Q \<longrightarrow> precisely_reduced (jac_Z T)"
    "precisely_reduced (jac_Z P) \<longrightarrow> precisely_reduced (jac_Z T)"
    using T(3) by (cases "aff_infinity Q"; simp)+
  then show "\<exists>T. pointAdd P Q = Some T \<and> jacobian_ok T \<and>
              (aff_infinity Q \<longrightarrow> T = P) \<and>
              (\<not> aff_infinity Q \<longrightarrow> precisely_reduced (jac_Z T)) \<and>
              (precisely_reduced (jac_Z P) \<longrightarrow> precisely_reduced (jac_Z T))"
    using T(1,2) by blast
next
  assume "precisely_reduced (jac_Z P) \<and> list_all op_ok ops"
  then show "\<exists>T. apply_ops ops P = Some T \<and> jacobian_ok T \<and> precisely_reduced (jac_Z T)"
    using apply_ops_total [OF assms(1)] by blast
qed

text \<open>The theorem at the point \<open>(2, 3, 1)\<close> and the affine point \<open>(5, 7)\<close>.\<close>

definition jac_231 :: jacobian_point_t where
  "jac_231 = \<lparr>jac_X = [2, 0, 0, 0, 0, 0, 0, 0, 0], jac_Y = [3, 0, 0, 0, 0, 0, 0, 0, 0],
     jac_Z = big_one\<rparr>"

definition aff_57 :: affine_point_t where
  "aff_57 = \<lparr>aff_x = [5, 0, 0, 0, 0, 0, 0, 0, 0], aff_y = [7, 0, 0, 0, 0, 0, 0, 0, 0],
     aff_infinity = False\<rparr>"

theorem C6_precise_Z_witness:
  "jacobian_ok jac_231 \<and> affine_ok aff_57 \<and> precisely_reduced (jac_Z jac_231) \<and>
   (\<exists>T. pointDouble jac_231 = Some T \<and> jacobian_ok T \<and> precisely_reduced (jac_Z T)) \<and>
   (\<exists>T. pointAdd jac_231 aff_57 = Some T \<and> jacobian_ok T \<and> precisely_reduced (jac_Z T)) \<and>
   (\<exists>T. apply_ops [Double, Add aff_57, Double] jac_231 = Some T \<and> jacobian_ok T \<and>
        precisely_reduced (jac_Z T))"
proof -
  have P: "jacobian_ok jac_231"
    by (simp add: jacobian_ok_def jac_231_def bigval_ok_def big_one_def)
  have Q: "affine_ok aff_57" "\<not> aff_infinity aff_57"
    by (simp_all add: affine_ok_def aff_57_def bigval_ok_def)
  have Z: "precisely_reduced (jac_Z jac_231)"
    by (simp add: jac_231_def precisely_reduced_one)
  have O: "list_all op_ok [Double, Add aff_57, Double]"
    using Q by simp
  show ?thesis
    using P Q Z O C6_precise_Z [OF P Q(1), of "[Double, Add aff_57, Double]"] by blast
qed

section \<open>Properties of the conversions\<close>

lemma length_le_bytes [simp]: "length (le_bytes n x) = n"
  by (induction n arbitrary: x) simp_all

lemma le_val_le_bytes: "le_val (le_bytes n x) = x mod 256 ^ n"
proof (induction n arbitrary: x)
  case 0
  show ?case by simp
next
  case (Suc n)
  have "x mod (256 * 256 ^ n) = 256 * (x div 256 mod 256 ^ n) + x mod 256"
    by (rule zmod_zmult2_eq) simp
  then show ?case using Suc by simp
qed

lemma le_bytes_add: "le_bytes (m + n) x = le_bytes m x @ le_bytes n (x div 256 ^ m)"
proof (induction m arbitrary: x)
  case 0
  show ?case by simp
next
  case (Suc m)
  have "x div 256 div 256 ^ m = x div (256 * 256 ^ m)"
    by (simp add: zdiv_zmult2_eq)
  then show ?case using Suc by simp
qed

lemma le_val_append: "le_val (xs @ ys) = le_val xs + 256 ^ length xs * le_val ys"
  by (induction xs) (simp_all add: algebra_simps)

lemma chunks_append:
  "length b = n \<Longrightarrow> 0 < n \<Longrightarrow> chunks n (b @ rest) = b # chunks n rest"
  by (subst chunks.simps) simp

lemma chunks_Nil [simp]: "chunks n [] = []"
  by (subst chunks.simps) auto

lemma load_store_int:
  "load_int e (store_int e n x) = x mod 256 ^ n"
  by (simp add: load_int_def store_int_def le_val_le_bytes)

lemma load_store_array:
  "0 < n \<Longrightarrow> load_array e n (store_array e n xs) = map (\<lambda>x. x mod 256 ^ n) xs"
proof (induction xs)
  case Nil
  show ?case by (simp add: load_array_def store_array_def)
next
  case (Cons x xs)
  have l: "length (store_int e n x) = n" by (simp add: store_int_def)
  show ?case
    using Cons chunks_append [OF l Cons.prems, of "store_array e n xs"]
    by (simp add: load_array_def store_array_def load_store_int)
qed

text \<open>A 64-bit digit in memory is its two 32-bit halves, in the order of the target.\<close>

lemma store_int_8:
  "store_int e 8 x =
     (if e = QCC_LITTLE_ENDIAN then store_int e 4 x @ store_int e 4 (x div 2 ^ 32)
      else store_int e 4 (x div 2 ^ 32) @ store_int e 4 x)"
  using le_bytes_add [of 4 4 x] by (simp add: store_int_def)

lemma load_int_8:
  "length lo = 4 \<Longrightarrow> length hi = 4 \<Longrightarrow>
   load_int e (if e = QCC_LITTLE_ENDIAN then lo @ hi else hi @ lo)
     = load_int e lo + 2 ^ 32 * load_int e hi"
  by (simp add: load_int_def le_val_append)


lemma length_store_int [simp]: "length (store_int e n x) = n"
  by (simp add: store_int_def)

lemma word_mod [simp]: "0 \<le> x \<Longrightarrow> x < 2 ^ 32 \<Longrightarrow> x mod 4294967296 = (x::int)"
  by simp

lemma hi_word:
  fixes x :: int
  assumes "0 \<le> x" "x < 2 ^ 64"
  shows "0 \<le> x div 2 ^ 32" "x div 2 ^ 32 < 2 ^ 32"
  using assms by (auto simp: pos_imp_zdiv_nonneg_iff div_less_iff_less_mult)

lemma swap_adjacent_9:
  "swap_adjacent [a0, a1, a2, a3, a4, a5, a6, a7, a8] = [a1, a0, a3, a2, a5, a4, a7, a6, a8]"
  by (simp add: swap_adjacent_def SWAP_def)

lemma swap_adjacent_8:
  "swap_adjacent [a0, a1, a2, a3, a4, a5, a6, a7] = [a1, a0, a3, a2, a5, a4, a7, a6]"
  by (simp add: swap_adjacent_def SWAP_def)

lemma store_array_8_as_4:
  "store_array e 8 [d0, d1, d2, d3] =
     (if e = QCC_LITTLE_ENDIAN
      then store_array e 4 [d0, d0 div 2 ^ 32, d1, d1 div 2 ^ 32, d2, d2 div 2 ^ 32, d3, d3 div 2 ^ 32]
      else store_array e 4 [d0 div 2 ^ 32, d0, d1 div 2 ^ 32, d1, d2 div 2 ^ 32, d2, d3 div 2 ^ 32, d3])"
  by (simp add: store_array_def store_int_8)

lemma digit256_to_bigval_mod:
  "digit256_to_bigval e [d0, d1, d2, d3] =
     [d0 mod 2 ^ 32, d0 div 2 ^ 32 mod 2 ^ 32, d1 mod 2 ^ 32, d1 div 2 ^ 32 mod 2 ^ 32,
      d2 mod 2 ^ 32, d2 div 2 ^ 32 mod 2 ^ 32, d3 mod 2 ^ 32, d3 div 2 ^ 32 mod 2 ^ 32, 0]"
proof (cases e)
  case QCC_LITTLE_ENDIAN
  then show ?thesis
    unfolding digit256_to_bigval_def Let_def store_array_8_as_4
    by (simp add: load_store_array)
next
  case QCC_BIG_ENDIAN
  then show ?thesis
    unfolding digit256_to_bigval_def Let_def store_array_8_as_4
    by (simp add: load_store_array swap_adjacent_9)
qed

lemma digit256_to_bigval_words:
  assumes "0 \<le> d0" "d0 < 2 ^ 64" "0 \<le> d1" "d1 < 2 ^ 64" "0 \<le> d2" "d2 < 2 ^ 64" "0 \<le> d3" "d3 < 2 ^ 64"
  shows "digit256_to_bigval e [d0, d1, d2, d3] =
     [d0 mod 2 ^ 32, d0 div 2 ^ 32, d1 mod 2 ^ 32, d1 div 2 ^ 32,
      d2 mod 2 ^ 32, d2 div 2 ^ 32, d3 mod 2 ^ 32, d3 div 2 ^ 32, 0]"
proof -
  note h = hi_word [OF assms(1,2)] hi_word [OF assms(3,4)] hi_word [OF assms(5,6)] hi_word [OF assms(7,8)]
  have m: "d0 div 2 ^ 32 mod 2 ^ 32 = d0 div 2 ^ 32" "d1 div 2 ^ 32 mod 2 ^ 32 = d1 div 2 ^ 32"
    "d2 div 2 ^ 32 mod 2 ^ 32 = d2 div 2 ^ 32" "d3 div 2 ^ 32 mod 2 ^ 32 = d3 div 2 ^ 32"
    using h by (simp_all only: mod_pos_pos_trivial)
  show ?thesis
    unfolding digit256_to_bigval_mod m ..
qed

lemma chunks_8_of_4:
  "chunks 8 (store_array e 4 [b0, b1, b2, b3, b4, b5, b6, b7]) =
     [store_int e 4 b0 @ store_int e 4 b1, store_int e 4 b2 @ store_int e 4 b3,
      store_int e 4 b4 @ store_int e 4 b5, store_int e 4 b6 @ store_int e 4 b7]"
proof -
  have "store_array e 4 [b0, b1, b2, b3, b4, b5, b6, b7] =
     (store_int e 4 b0 @ store_int e 4 b1) @ (store_int e 4 b2 @ store_int e 4 b3) @
     (store_int e 4 b4 @ store_int e 4 b5) @ (store_int e 4 b6 @ store_int e 4 b7) @ []"
    by (simp add: store_array_def)
  then show ?thesis
    by (simp only: chunks_append length_append length_store_int chunks_Nil)
qed

lemma load_pair:
  assumes "0 \<le> lo" "lo < 2 ^ 32" "0 \<le> hi" "hi < 2 ^ 32"
  shows "load_int e (if e = QCC_LITTLE_ENDIAN then store_int e 4 lo @ store_int e 4 hi
                     else store_int e 4 hi @ store_int e 4 lo) = lo + 2 ^ 32 * hi"
proof -
  have "load_int e (store_int e 4 lo) = lo" "load_int e (store_int e 4 hi) = hi"
    using assms by (simp_all add: load_store_int)
  then show ?thesis
    using load_int_8 [of "store_int e 4 lo" "store_int e 4 hi" e] by simp
qed

lemma bigval_to_digit256_words:
  assumes "bigval_ok [a0, a1, a2, a3, a4, a5, a6, a7, a8]"
    and "\<not> big_is_negative [a0, a1, a2, a3, a4, a5, a6, a7, a8]"
  shows "bigval_to_digit256 e [a0, a1, a2, a3, a4, a5, a6, a7, a8] =
     Some [a0 + 2 ^ 32 * a1, a2 + 2 ^ 32 * a3, a4 + 2 ^ 32 * a5, a6 + 2 ^ 32 * a7]"
proof -
  from assms(1) have r: "0 \<le> a0" "a0 < 2 ^ 32" "0 \<le> a1" "a1 < 2 ^ 32" "0 \<le> a2" "a2 < 2 ^ 32"
    "0 \<le> a3" "a3 < 2 ^ 32" "0 \<le> a4" "a4 < 2 ^ 32" "0 \<le> a5" "a5 < 2 ^ 32"
    "0 \<le> a6" "a6 < 2 ^ 32" "0 \<le> a7" "a7 < 2 ^ 32"
    by (simp_all add: bigval_ok_def)
  have d: "load_array e 4 (store_array e 4 [a0, a1, a2, a3, a4, a5, a6, a7])
      = [a0, a1, a2, a3, a4, a5, a6, a7]"
    using r by (simp add: load_store_array)
  note p = load_pair [OF r(1-4), of e] load_pair [OF r(5-8), of e]
    load_pair [OF r(9-12), of e] load_pair [OF r(13-16), of e]
  have t: "take (BIGLEN - 1) [a0, a1, a2, a3, a4, a5, a6, a7, a8] = [a0, a1, a2, a3, a4, a5, a6, a7]"
    by simp
  show ?thesis
  proof (cases e)
    case QCC_LITTLE_ENDIAN
    have "bigval_to_digit256 e [a0, a1, a2, a3, a4, a5, a6, a7, a8]
        = Some (load_array e 8 (store_array e 4 [a0, a1, a2, a3, a4, a5, a6, a7]))"
      unfolding bigval_to_digit256_def Let_def t d using assms(2) QCC_LITTLE_ENDIAN by simp
    also have "load_array e 8 (store_array e 4 [a0, a1, a2, a3, a4, a5, a6, a7])
        = [a0 + 2 ^ 32 * a1, a2 + 2 ^ 32 * a3, a4 + 2 ^ 32 * a5, a6 + 2 ^ 32 * a7]"
      unfolding load_array_def chunks_8_of_4 using p QCC_LITTLE_ENDIAN by simp
    finally show ?thesis .
  next
    case QCC_BIG_ENDIAN
    have "bigval_to_digit256 e [a0, a1, a2, a3, a4, a5, a6, a7, a8]
        = Some (load_array e 8 (store_array e 4 [a1, a0, a3, a2, a5, a4, a7, a6]))"
      unfolding bigval_to_digit256_def Let_def t d swap_adjacent_8
      using assms(2) QCC_BIG_ENDIAN by simp
    also have "load_array e 8 (store_array e 4 [a1, a0, a3, a2, a5, a4, a7, a6])
        = [a0 + 2 ^ 32 * a1, a2 + 2 ^ 32 * a3, a4 + 2 ^ 32 * a5, a6 + 2 ^ 32 * a7]"
      unfolding load_array_def chunks_8_of_4 using p QCC_BIG_ENDIAN by simp
    finally show ?thesis .
  qed
qed


text \<open>Byte \<open>i\<close> of a word list, as \<^verbatim>\<open>bigval_to_binary\<close> computes it.\<close>

definition byte_of :: "int list \<Rightarrow> nat \<Rightarrow> int" where
  "byte_of xs i = u8 (xs ! (i div 4) div 2 ^ (8 * (i mod 4)))"

lemma div_pow_add: "(x::int) div 256 ^ (m + n) = x div 256 ^ m div 256 ^ n"
  by (simp add: power_add zdiv_zmult2_eq)

lemma byte_low:
  fixes x U :: int
  assumes "i < 4"
  shows "(x + 2 ^ 32 * U) div 256 ^ i mod 256 = x div 256 ^ i mod 256"
proof -
  have e: "(2::int) ^ 32 = 256 ^ i * (256 * 256 ^ (3 - i))"
  proof -
    have "(256::int) ^ i * (256 * 256 ^ (3 - i)) = 256 ^ (i + Suc (3 - i))"
      by (simp only: power_add power_Suc)
    also have "i + Suc (3 - i) = 4" using assms by simp
    finally show ?thesis by simp
  qed
  have "(x + 2 ^ 32 * U) div 256 ^ i = (x + 256 ^ i * (256 * 256 ^ (3 - i) * U)) div 256 ^ i"
    unfolding e by (simp add: algebra_simps)
  also have "\<dots> = x div 256 ^ i + 256 * 256 ^ (3 - i) * U"
    by simp
  also have "\<dots> mod 256 = x div 256 ^ i mod 256"
    by (simp add: mult.assoc)
  finally show ?thesis .
qed

lemma byte_of_uval:
  "words_ok xs \<Longrightarrow> i < 4 * length xs \<Longrightarrow> byte_of xs i = big_uval xs div 256 ^ i mod 256"
proof (induction xs arbitrary: i)
  case Nil
  then show ?case by simp
next
  case (Cons x xs)
  show ?case
  proof (cases "i < 4")
    case True
    then have "i div 4 = 0" "i mod 4 = i" by auto
    then have "byte_of (x # xs) i = x div 2 ^ (8 * i) mod 256"
      by (simp add: byte_of_def u8_def)
    also have "(2::int) ^ (8 * i) = 256 ^ i" by (simp add: power_mult)
    finally show ?thesis using byte_low [OF True, of x "big_uval xs"] by simp
  next
    case False
    define j where "j = i - 4"
    have i: "i = 4 + j" using False by (simp add: j_def)
    have j: "j < 4 * length xs" using Cons.prems(2) by (simp add: i)
    have ok: "words_ok xs" and x: "0 \<le> x" "x < 2 ^ 32" using Cons.prems(1) by auto
    have dm: "(4 + j) div 4 = Suc (j div 4)" "(4 + j) mod 4 = j mod 4"
      by (simp_all add: div_add_self1 mod_add_self1)
    have "byte_of (x # xs) i = byte_of xs j"
      unfolding byte_of_def i dm by simp
    also have "\<dots> = big_uval xs div 256 ^ j mod 256"
      by (rule Cons.IH [OF ok j])
    also have "big_uval xs = (x + 2 ^ 32 * big_uval xs) div 256 ^ 4"
      using x by (simp add: div_pos_pos_trivial)
    also have "\<dots> div 256 ^ j = (x + 2 ^ 32 * big_uval xs) div 256 ^ (4 + j)"
      by (rule div_pow_add [symmetric])
    finally show ?thesis by (simp add: i)
  qed
qed


lemma bigval_to_binary_alt:
  "bigval_to_binary src tgt tgtlen =
     foldl (\<lambda>tgt i. tgt[tgtlen - 1 - i := (if big_is_negative src then 255 else 0)])
       (foldl (\<lambda>tgt i. if i < tgtlen then tgt[tgtlen - 1 - i := byte_of src i] else tgt)
          tgt [0..<36])
       [36..<tgtlen]"
  unfolding bigval_to_binary_def byte_of_def Let_def by simp

lemma loop1_bytes:
  "length tgt = n \<Longrightarrow>
   length (foldl (\<lambda>tgt i. if i < n then tgt[n - 1 - i := f i] else tgt) tgt [0..<m]) = n \<and>
   (\<forall>j<n. foldl (\<lambda>tgt i. if i < n then tgt[n - 1 - i := f i] else tgt) tgt [0..<m] ! (n - 1 - j)
       = (if j < m then f j else tgt ! (n - 1 - j)))"
proof (induction m)
  case 0
  then show ?case by simp
next
  case (Suc m)
  let ?t = "foldl (\<lambda>tgt i. if i < n then tgt[n - 1 - i := f i] else tgt) tgt [0..<m]"
  from Suc have l: "length ?t = n"
    and v: "\<And>j. j < n \<Longrightarrow> ?t ! (n - 1 - j) = (if j < m then f j else tgt ! (n - 1 - j))"
    by auto
  have st: "foldl (\<lambda>tgt i. if i < n then tgt[n - 1 - i := f i] else tgt) tgt [0..<Suc m]
      = (if m < n then ?t[n - 1 - m := f m] else ?t)"
    by simp
  show ?case
  proof (intro conjI allI impI)
    show "length (foldl (\<lambda>tgt i. if i < n then tgt[n - 1 - i := f i] else tgt) tgt [0..<Suc m]) = n"
      unfolding st using l by simp
  next
    fix j assume j: "j < n"
    show "foldl (\<lambda>tgt i. if i < n then tgt[n - 1 - i := f i] else tgt) tgt [0..<Suc m] ! (n - 1 - j)
        = (if j < Suc m then f j else tgt ! (n - 1 - j))"
    proof (cases "m < n")
      case True
      have "(n - 1 - m = n - 1 - j) = (m = j)" using True j by auto
      then show ?thesis
        unfolding st using True j l v [OF j] by (auto simp: nth_list_update)
    next
      case False
      then show ?thesis unfolding st using j v [OF j] by auto
    qed
  qed
qed

lemma loop2_bytes:
  "length tgt = n \<Longrightarrow> m \<le> n \<Longrightarrow>
   length (foldl (\<lambda>tgt i. tgt[n - 1 - i := h]) tgt [36..<m]) = n \<and>
   (\<forall>j<n. foldl (\<lambda>tgt i. tgt[n - 1 - i := h]) tgt [36..<m] ! (n - 1 - j)
       = (if 36 \<le> j \<and> j < m then h else tgt ! (n - 1 - j)))"
proof (induction m)
  case 0
  then show ?case by simp
next
  case (Suc m)
  let ?t = "foldl (\<lambda>tgt i. tgt[n - 1 - i := h]) tgt [36..<m]"
  from Suc have l: "length ?t = n"
    and v: "\<And>j. j < n \<Longrightarrow> ?t ! (n - 1 - j) = (if 36 \<le> j \<and> j < m then h else tgt ! (n - 1 - j))"
    and mn: "m < n"
    by auto
  show ?case
  proof (cases "36 \<le> m")
    case True
    then have st: "foldl (\<lambda>tgt i. tgt[n - 1 - i := h]) tgt [36..<Suc m] = ?t[n - 1 - m := h]"
      by simp
    show ?thesis
    proof (intro conjI allI impI)
      show "length (foldl (\<lambda>tgt i. tgt[n - 1 - i := h]) tgt [36..<Suc m]) = n"
        unfolding st using l by simp
    next
      fix j assume j: "j < n"
      have "(n - 1 - m = n - 1 - j) = (m = j)" using mn j by auto
      then show "foldl (\<lambda>tgt i. tgt[n - 1 - i := h]) tgt [36..<Suc m] ! (n - 1 - j)
          = (if 36 \<le> j \<and> j < Suc m then h else tgt ! (n - 1 - j))"
        unfolding st using True j l v [OF j] by (auto simp: nth_list_update)
    qed
  next
    case False
    then have "[36..<Suc m] = []" "[36..<m] = []" by auto
    then show ?thesis using Suc.prems False by auto
  qed
qed

lemma bigval_to_binary_bytes:
  assumes "length tgt = n"
  shows "length (bigval_to_binary src tgt n) = n"
    and "j < n \<Longrightarrow> bigval_to_binary src tgt n ! (n - 1 - j)
       = (if j < 36 then byte_of src j else if big_is_negative src then 255 else 0)"
proof -
  let ?t1 = "foldl (\<lambda>tgt i. if i < n then tgt[n - 1 - i := byte_of src i] else tgt) tgt [0..<36]"
  note A = loop1_bytes [OF assms, of "byte_of src" 36]
  from A have l1: "length ?t1 = n" by simp
  note B = loop2_bytes [OF l1 order_refl, of "if big_is_negative src then 255 else 0"]
  show "length (bigval_to_binary src tgt n) = n"
    unfolding bigval_to_binary_alt using B by simp
  assume j: "j < n"
  show "bigval_to_binary src tgt n ! (n - 1 - j)
       = (if j < 36 then byte_of src j else if big_is_negative src then 255 else 0)"
    unfolding bigval_to_binary_alt using A B j by auto
qed


lemma and_take_push: "and (take_bit k (a::int)) (push_bit k b) = 0"
  by (rule bit_eqI) (auto simp: bit_simps)

lemma or_shift:
  fixes a b :: int
  assumes "0 \<le> a" "a < 2 ^ k"
  shows "or a (b * 2 ^ k) = a + b * 2 ^ k"
proof -
  have "take_bit k a = a" using assms by (simp add: take_bit_int_eq_self)
  moreover have "push_bit k b = b * 2 ^ k" by (rule push_bit_eq_mult)
  ultimately have "and a (b * 2 ^ k) = 0" using and_take_push [of k a b] by simp
  then show ?thesis by (rule disjunctive_add_eq_or [symmetric])
qed

text \<open>A value cut down to its \<open>n\<close> low-order bytes: the bytes from index \<open>n\<close> on are zero.\<close>

definition bigval_truncate :: "bigval \<Rightarrow> nat \<Rightarrow> bigval" where
  "bigval_truncate x n = map (\<lambda>k. x ! k mod 256 ^ min 4 (n - 4 * k)) [0..<BIGLEN]"

lemma next_byte:
  fixes w :: int
  shows "w mod 256 ^ t + (w div 256 ^ t mod 256) * 256 ^ t = w mod 256 ^ Suc t"
proof -
  have "w mod (256 ^ t * 256) = 256 ^ t * (w div 256 ^ t mod 256) + w mod 256 ^ t"
    by (rule zmod_zmult2_eq) simp
  then show ?thesis by (simp add: algebra_simps)
qed

lemma binary_to_bigval_step:
  assumes "length x = 9" "m < 36"
  shows "(bigval_truncate x m)
           [m div 4 := or (bigval_truncate x m ! (m div 4)) (u32 (u32 (byte_of x m) * 2 ^ (8 * (m mod 4))))]
         = bigval_truncate x (Suc m)"
proof -
  define k0 where "k0 = m div 4"
  define t where "t = m mod 4"
  have m: "m = 4 * k0 + t" and t: "t < 4" and k0: "k0 < 9"
    using assms(2) by (auto simp: k0_def t_def)
  define w where "w = x ! k0"
  have c0: "min 4 (m - 4 * k0) = t" "min 4 (Suc m - 4 * k0) = Suc t"
    using t by (auto simp: m)
  have old: "bigval_truncate x m ! k0 = w mod 256 ^ t"
    using k0 by (simp add: bigval_truncate_def c0 w_def del: upt_Suc)
  have p8: "(2::int) ^ (8 * t) = 256 ^ t" by (simp add: power_mult)
  define b where "b = w div 256 ^ t mod 256"
  have bo: "byte_of x m = b"
    by (simp add: byte_of_def u8_def k0_def [symmetric] t_def [symmetric] w_def p8 b_def)
  have b: "0 \<le> b" "b < 256" by (simp_all add: b_def)
  have "b * 256 ^ t \<le> 255 * (256 ^ 3 :: int)"
    using b t by (intro mult_mono power_increasing) auto
  then have sh: "u32 (u32 b * 2 ^ (8 * t)) = b * 256 ^ t"
    using b by (simp add: u32_def p8)
  have lo: "0 \<le> w mod 256 ^ t" "w mod 256 ^ t < 2 ^ (8 * t)"
    unfolding p8 by simp_all
  have new: "or (w mod 256 ^ t) (b * 256 ^ t) = w mod 256 ^ Suc t"
    using or_shift [OF lo, of b] next_byte [of w t] by (simp only: p8 b_def)
  show ?thesis
  proof (rule nth_equalityI)
    show "length ((bigval_truncate x m)[m div 4 := or (bigval_truncate x m ! (m div 4))
        (u32 (u32 (byte_of x m) * 2 ^ (8 * (m mod 4))))]) = length (bigval_truncate x (Suc m))"
      by (simp add: bigval_truncate_def)
  next
    fix k
    assume "k < length ((bigval_truncate x m)[m div 4 := or (bigval_truncate x m ! (m div 4))
        (u32 (u32 (byte_of x m) * 2 ^ (8 * (m mod 4))))])"
    then have k: "k < 9" by (simp add: bigval_truncate_def)
    have nk: "bigval_truncate x n ! k = x ! k mod 256 ^ min 4 (n - 4 * k)" for n
      using k by (simp add: bigval_truncate_def del: upt_Suc)
    show "(bigval_truncate x m)[m div 4 := or (bigval_truncate x m ! (m div 4))
        (u32 (u32 (byte_of x m) * 2 ^ (8 * (m mod 4))))] ! k = bigval_truncate x (Suc m) ! k"
    proof (cases "k = k0")
      case True
      have "bigval_truncate x (Suc m) ! k0 = w mod 256 ^ Suc t"
        unfolding nk [unfolded True] c0 w_def ..
      then show ?thesis
        unfolding k0_def [symmetric] t_def [symmetric] bo sh old True
        using new k0 by (simp add: bigval_truncate_def del: upt_Suc)
    next
      case False
      have "min 4 (Suc m - 4 * k) = min 4 (m - 4 * k)"
        using False t unfolding m by (cases "k < k0") auto
      then show ?thesis
        unfolding k0_def [symmetric] using False nk by simp
    qed
  qed
qed

lemma binary_to_bigval_loop:
  assumes "length x = 9" "m \<le> 36" "\<And>i. i < m \<Longrightarrow> src ! (n - 1 - i) = byte_of x i"
  shows "foldl (\<lambda>tgt i.
        tgt[i div 4 := or (tgt ! (i div 4)) (u32 (u32 (src ! (n - 1 - i)) * 2 ^ (8 * (i mod 4))))])
       (replicate 9 0) [0..<m] = bigval_truncate x m"
  using assms(2,3)
proof (induction m)
  case 0
  show ?case by (simp add: bigval_truncate_def map_replicate_const del: upt_Suc)
next
  case (Suc m)
  have "m < 36" using Suc.prems(1) by simp
  from binary_to_bigval_step [OF assms(1) this] Suc show ?case
    by simp
qed


subsection \<open>The two representations of field elements\<close>

lemma length4_cases:
  assumes "length d = 4"
  obtains d0 d1 d2 d3 where "d = [d0, d1, d2, d3]"
proof -
  from assms obtain d0 r0 where "d = d0 # r0" "length r0 = 3" by (cases d) auto
  moreover then obtain d1 r1 where "r0 = d1 # r1" "length r1 = 2" by (cases r0) auto
  moreover then obtain d2 r2 where "r1 = d2 # r2" "length r2 = 1" by (cases r1) auto
  moreover then obtain d3 r3 where "r2 = d3 # r3" "length r3 = 0" by (cases r2) auto
  ultimately show ?thesis using that by auto
qed

lemma bigval_ok_9I:
  assumes "0 \<le> a0" "a0 < 2 ^ 32" "0 \<le> a1" "a1 < 2 ^ 32" "0 \<le> a2" "a2 < 2 ^ 32"
    "0 \<le> a3" "a3 < 2 ^ 32" "0 \<le> a4" "a4 < 2 ^ 32" "0 \<le> a5" "a5 < 2 ^ 32"
    "0 \<le> a6" "a6 < 2 ^ 32" "0 \<le> a7" "a7 < 2 ^ 32" "0 \<le> a8" "a8 < 2 ^ 32"
  shows "bigval_ok [a0, a1, a2, a3, a4, a5, a6, a7, a8]"
  using assms by (simp add: bigval_ok_def)

lemma digit256_roundtrip:
  assumes "digit256_ok d"
  shows "bigval_ok (digit256_to_bigval e d)" "digit256_to_bigval e d ! MSW = 0"
    "\<not> big_is_negative (digit256_to_bigval e d)"
    "bigval_to_digit256 e (digit256_to_bigval e d) = Some d"
proof -
  from assms have "length d = 4" by (simp add: digit256_ok_def)
  then obtain d0 d1 d2 d3 where d: "d = [d0, d1, d2, d3]" by (rule length4_cases)
  from assms have r: "0 \<le> d0" "d0 < 2 ^ 64" "0 \<le> d1" "d1 < 2 ^ 64" "0 \<le> d2" "d2 < 2 ^ 64"
    "0 \<le> d3" "d3 < 2 ^ 64"
    by (simp_all add: digit256_ok_def d)
  note h = hi_word [OF r(1,2)] hi_word [OF r(3,4)] hi_word [OF r(5,6)] hi_word [OF r(7,8)]
  note w = digit256_to_bigval_words [OF r, of e]
  have lo: "0 \<le> x mod 2 ^ 32" "x mod 2 ^ 32 < 2 ^ 32" for x :: int by simp_all
  show ok: "bigval_ok (digit256_to_bigval e d)"
    unfolding d w by (intro bigval_ok_9I h lo) simp_all
  show "digit256_to_bigval e d ! MSW = 0"
    unfolding d w by simp
  show nn: "\<not> big_is_negative (digit256_to_bigval e d)"
    unfolding d w by (simp add: big_is_negative_def s32_def)
  have j: "x mod 2 ^ 32 + 2 ^ 32 * (x div 2 ^ 32) = x" for x :: int
    by simp
  show "bigval_to_digit256 e (digit256_to_bigval e d) = Some d"
    using bigval_to_digit256_words [OF ok [unfolded d w] nn [unfolded d w], of e]
    unfolding d w j .
qed

lemma bigval_to_digit256_negative:
  "big_is_negative a \<Longrightarrow> bigval_to_digit256 e a = None"
  by (simp add: bigval_to_digit256_def)



text \<open>
  Claim C10. For every 256-bit field element \<open>d\<close> in the \<^verbatim>\<open>digit256_t\<close> representation, on
  either kind of target, \<open>digit256_to_bigval\<close> gives a representable value whose ninth word
  is zero, which therefore is not negative, and \<open>bigval_to_digit256\<close> succeeds on it and
  gives \<open>d\<close> back. \<open>bigval_to_digit256\<close> fails on every negative input.
\<close>

theorem C10_digit256_roundtrip:
  assumes "digit256_ok d"
  shows "bigval_ok (digit256_to_bigval e d) \<and>
         digit256_to_bigval e d ! MSW = 0 \<and>
         \<not> big_is_negative (digit256_to_bigval e d) \<and>
         bigval_to_digit256 e (digit256_to_bigval e d) = Some d \<and>
         (\<forall>a. big_is_negative a \<longrightarrow> bigval_to_digit256 e a = None)"
  using digit256_roundtrip [OF assms, of e] bigval_to_digit256_negative [of _ e]
  by blast

definition digit_sample :: digit256_t where
  "digit_sample = [0x0123456789abcdef, 0, 0xffffffffffffffff, 0x8000000000000000]"

theorem C10_digit256_roundtrip_witness:
  "digit256_ok digit_sample \<and>
   bigval_to_digit256 QCC_LITTLE_ENDIAN (digit256_to_bigval QCC_LITTLE_ENDIAN digit_sample)
     = Some digit_sample \<and>
   bigval_to_digit256 QCC_BIG_ENDIAN (digit256_to_bigval QCC_BIG_ENDIAN digit_sample)
     = Some digit_sample \<and>
   big_is_negative big_minus_one \<and>
   bigval_to_digit256 QCC_LITTLE_ENDIAN big_minus_one = None"
proof -
  have d: "digit256_ok digit_sample"
    by (simp add: digit256_ok_def digit_sample_def)
  have n: "big_is_negative big_minus_one"
    by (simp add: big_is_negative_def big_minus_one_def s32_def)
  show ?thesis
    using d n C10_digit256_roundtrip [OF d, of QCC_LITTLE_ENDIAN]
      C10_digit256_roundtrip [OF d, of QCC_BIG_ENDIAN]
    by blast
qed

subsection \<open>Byte strings and back\<close>

fun trunc_words :: "nat \<Rightarrow> int list \<Rightarrow> int list" where
  "trunc_words m [] = []"
| "trunc_words m (x # xs) = x mod 256 ^ min 4 m # trunc_words (m - 4) xs"

lemma trunc_words_map:
  "trunc_words m xs = map (\<lambda>k. xs ! k mod 256 ^ min 4 (m - 4 * k)) [0..<length xs]"
proof (induction xs arbitrary: m)
  case Nil
  show ?case by simp
next
  case (Cons x xs)
  have "map (\<lambda>k. (x # xs) ! k mod 256 ^ min 4 (m - 4 * k)) [0..<length (x # xs)]
      = x mod 256 ^ min 4 m # map (\<lambda>k. (x # xs) ! k mod 256 ^ min 4 (m - 4 * k)) (map Suc [0..<length xs])"
    by (simp add: upt_conv_Cons map_Suc_upt del: upt_Suc)
  also have "map (\<lambda>k. (x # xs) ! k mod 256 ^ min 4 (m - 4 * k)) (map Suc [0..<length xs])
      = map (\<lambda>k. xs ! k mod 256 ^ min 4 (m - 4 - 4 * k)) [0..<length xs]"
    by (simp add: comp_def diff_diff_eq del: upt_Suc)
  finally show ?case using Cons [of "m - 4"] by simp
qed

lemma bigval_truncate_trunc: "length x = 9 \<Longrightarrow> bigval_truncate x n = trunc_words n x"
  by (simp add: bigval_truncate_def trunc_words_map del: upt_Suc)

lemma small_pow_dvd:
  assumes "m < 4"
  shows "(x + 2 ^ 32 * U) mod 256 ^ m = (x::int) mod 256 ^ m"
proof -
  have "(256::int) ^ m * 256 ^ (4 - m) = 256 ^ (m + (4 - m))"
    by (simp only: power_add)
  also have "m + (4 - m) = 4" using assms by simp
  finally have e: "(2::int) ^ 32 = 256 ^ m * 256 ^ (4 - m)" by simp
  have "(x + 256 ^ m * (256 ^ (4 - m) * U)) mod 256 ^ m = x mod 256 ^ m"
    by (rule mod_mult_self2)
  then show ?thesis unfolding e by (simp add: mult.assoc)
qed

lemma trunc_words_uval:
  "words_ok xs \<Longrightarrow> words_ok (trunc_words m xs) \<and> length (trunc_words m xs) = length xs \<and>
     big_uval (trunc_words m xs) = big_uval xs mod 256 ^ m"
proof (induction xs arbitrary: m)
  case Nil
  show ?case by simp
next
  case (Cons x xs)
  then have x: "0 \<le> x" "x < 2 ^ 32" and ok: "words_ok xs" by auto
  note IH = Cons.IH [OF ok, of "m - 4"]
  show ?case
  proof (cases "4 \<le> m")
    case True
    then have mm: "min 4 m = 4" by simp
    have xm: "x mod 256 ^ 4 = x" using x by (simp add: mod_pos_pos_trivial)
    have "(256::int) ^ m = 256 ^ (4 + (m - 4))" using True by simp
    also have "\<dots> = 2 ^ 32 * 256 ^ (m - 4)" by (simp only: power_add) simp
    finally have pm: "(256::int) ^ m = 2 ^ 32 * 256 ^ (m - 4)" .
    have "(x + 2 ^ 32 * big_uval xs) mod (2 ^ 32 * 256 ^ (m - 4))
        = x + 2 ^ 32 * (big_uval xs mod 256 ^ (m - 4))"
      using x by (intro carry_mod) auto
    then have v: "big_uval (trunc_words m (x # xs)) = big_uval (x # xs) mod 256 ^ m"
      unfolding pm using IH x by (simp add: mm)
    show ?thesis using v IH x by (simp add: mm)
  next
    case False
    then have m4: "m < 4" "m - 4 = 0" "min 4 m = m" by auto
    have z: "big_uval (trunc_words 0 xs) = 0"
      using Cons.IH [OF ok, of 0] by simp
    have b: "0 \<le> x mod 256 ^ m" "x mod 256 ^ m < 2 ^ 32"
    proof -
      show "0 \<le> x mod 256 ^ m" by simp
      have "x mod 256 ^ m \<le> x" using x by (intro zmod_le_nonneg_dividend) auto
      then show "x mod 256 ^ m < 2 ^ 32" using x by linarith
    qed
    have v: "big_uval (trunc_words m (x # xs)) = big_uval (x # xs) mod 256 ^ m"
      using small_pow_dvd [OF m4(1), of x "big_uval xs"] by (simp add: m4 z)
    show ?thesis using v IH b by (simp add: m4)
  qed
qed

lemma bigval_truncate_ok:
  assumes "bigval_ok x"
  shows "bigval_ok (bigval_truncate x n)" "big_uval (bigval_truncate x n) = big_uval x mod 256 ^ n"
  using assms trunc_words_uval [of x n]
  by (simp_all add: bigval_ok_words bigval_truncate_trunc)

lemma bigval_truncate_full:
  assumes "bigval_ok x" "36 \<le> n"
  shows "bigval_truncate x n = x"
proof -
  from assms have l: "length x = 9" and ok: "words_ok x" by (auto simp: bigval_ok_words)
  from l obtain a0 a1 a2 a3 a4 a5 a6 a7 a8 where a: "x = [a0, a1, a2, a3, a4, a5, a6, a7, a8]"
    by (rule length9_cases)
  have m: "min 4 (n - k) = 4" if "k \<le> 32" for k using assms(2) that by simp
  show ?thesis
    unfolding bigval_truncate_trunc [OF l] using ok assms(2) unfolding a
    by (simp add: mod_pos_pos_trivial)
qed


lemma pow256_36: "(256::int) ^ 36 = 2 ^ 288"
  by simp

lemma pow256_split:
  assumes "i \<le> 36"
  shows "(2::int) ^ 288 = 256 ^ i * 256 ^ (36 - i)"
proof -
  have "(256::int) ^ i * 256 ^ (36 - i) = 256 ^ (i + (36 - i))" by (simp only: power_add)
  also have "i + (36 - i) = 36" using assms by simp
  finally show ?thesis by (simp only: pow256_36)
qed

lemma div_minus_mult:
  fixes a B c :: int
  assumes "B \<noteq> 0"
  shows "(a - B * c) div B = a div B - c"
  using div_mult_self2 [OF assms, of a "- c"] by simp

lemma mod_minus_mult:
  fixes a B c :: int
  shows "(a - B * c) mod B = a mod B"
  using mod_mult_self2 [of a B "- c"] by simp

lemma byte_of_val:
  assumes "bigval_ok x" "i < 36"
  shows "byte_of x i = big_val x div 256 ^ i mod 256"
proof -
  from assms have ok: "words_ok x" and l: "i < 4 * length x" by (auto simp: bigval_ok_words)
  have u: "byte_of x i = big_uval x div 256 ^ i mod 256" by (rule byte_of_uval [OF ok l])
  show ?thesis
  proof (cases "big_uval x < 2 ^ 287")
    case True
    then show ?thesis using u by (simp add: big_val_def)
  next
    case False
    have i: "Suc i \<le> 36" using assms(2) by simp
    have e: "(2::int) ^ 288 = 256 ^ i * (256 * 256 ^ (36 - Suc i))"
      using pow256_split [OF i] by (simp only: power_Suc mult.assoc mult.left_commute)
    have "(big_uval x - 2 ^ 288) div 256 ^ i
        = big_uval x div 256 ^ i - 256 * 256 ^ (36 - Suc i)"
      unfolding e by (rule div_minus_mult) simp
    also have "\<dots> mod 256 = big_uval x div 256 ^ i mod 256"
      by (rule mod_minus_mult)
    finally show ?thesis using False u by (simp add: big_val_def)
  qed
qed

lemma high_byte_val:
  assumes "bigval_ok x" "36 \<le> i"
  shows "big_val x div 256 ^ i mod 256 = (if big_is_negative x then 255 else 0)"
proof -
  note r = big_val_range [OF assms(1)]
  have "(256::int) ^ 36 \<le> 256 ^ i" using assms(2) by (intro power_increasing) auto
  then have p: "(2::int) ^ 288 \<le> 256 ^ i" by (simp only: pow256_36)
  show ?thesis
  proof (cases "big_val x < 0")
    case True
    have "(big_val x + 256 ^ i) div 256 ^ i = 0"
      using True r p by (intro div_pos_pos_trivial) auto
    moreover have "(big_val x + 256 ^ i) div 256 ^ i = big_val x div 256 ^ i + 1"
      by (rule div_add_self2) simp
    ultimately have "big_val x div 256 ^ i = - 1"
      by linarith
    then show ?thesis using True big_is_negative_iff [OF assms(1)] by simp
  next
    case False
    have "big_val x div 256 ^ i = 0"
      using False r p by (intro div_pos_pos_trivial) auto
    then show ?thesis using False big_is_negative_iff [OF assms(1)] by simp
  qed
qed

lemma binary_roundtrip:
  assumes "bigval_ok x" "length tgt = n"
  shows "length (bigval_to_binary x tgt n) = n"
    and "i < n \<Longrightarrow> bigval_to_binary x tgt n ! (n - 1 - i) = big_val x div 256 ^ i mod 256"
    and "binary_to_bigval (bigval_to_binary x tgt n) n = bigval_truncate x n"
    and "bigval_ok (binary_to_bigval (bigval_to_binary x tgt n) n)"
    and "big_uval (binary_to_bigval (bigval_to_binary x tgt n) n) = big_val x mod 256 ^ min n 36"
    and "36 \<le> n \<Longrightarrow> binary_to_bigval (bigval_to_binary x tgt n) n = x"
proof -
  note B = bigval_to_binary_bytes [OF assms(2), where src = x]
  from assms(1) have l: "length x = 9" by (simp add: bigval_ok_words)
  show "length (bigval_to_binary x tgt n) = n" by (rule B(1))
  show "bigval_to_binary x tgt n ! (n - 1 - i) = big_val x div 256 ^ i mod 256" if "i < n"
    using B(2) [OF that] byte_of_val [OF assms(1), of i] high_byte_val [OF assms(1), of i]
    by (cases "i < 36") simp_all
  have src: "bigval_to_binary x tgt n ! (n - 1 - i) = byte_of x i" if "i < min n 36" for i
    using B(2) [of i] that by simp
  have "binary_to_bigval (bigval_to_binary x tgt n) n = bigval_truncate x (min n 36)"
    unfolding binary_to_bigval_def
    using binary_to_bigval_loop [OF l, of "min n 36" "bigval_to_binary x tgt n" n] src
    by simp
  also have "\<dots> = bigval_truncate x n"
    using bigval_truncate_full [OF assms(1), of n] bigval_truncate_full [OF assms(1), of 36]
    by (cases "n \<le> 36") (simp_all add: min_def)
  finally show t: "binary_to_bigval (bigval_to_binary x tgt n) n = bigval_truncate x n" .
  show "bigval_ok (binary_to_bigval (bigval_to_binary x tgt n) n)"
    unfolding t by (rule bigval_truncate_ok [OF assms(1)])
  show "36 \<le> n \<Longrightarrow> binary_to_bigval (bigval_to_binary x tgt n) n = x"
    unfolding t by (rule bigval_truncate_full [OF assms(1)])
  have u: "0 \<le> big_uval x" "big_uval x < 2 ^ 288"
    using big_uval_bounds [of x] assms(1) by (auto simp: bigval_ok_words)
  show "big_uval (binary_to_bigval (bigval_to_binary x tgt n) n) = big_val x mod 256 ^ min n 36"
  proof (cases "n \<le> 36")
    case True
    have "(256::int) ^ n dvd 2 ^ 288"
      unfolding pow256_split [OF True] by simp
    then have "big_val x mod 2 ^ 288 mod 256 ^ n = big_val x mod 256 ^ n"
      by (rule mod_mod_cancel)
    then show ?thesis
      unfolding t bigval_truncate_ok(2) [OF assms(1)] using True
      by (simp add: big_uval_val_mod [OF assms(1)] min_def)
  next
    case False
    then have "(256::int) ^ 36 \<le> 256 ^ n" by (intro power_increasing) auto
    then have "big_uval x mod 256 ^ n = big_uval x"
      using u by (intro mod_pos_pos_trivial) (auto simp only: pow256_36)
    then show ?thesis
      unfolding t bigval_truncate_ok(2) [OF assms(1)] using False
      by (simp add: big_uval_val_mod [OF assms(1)] min_def)
  qed
qed

text \<open>
  Claim C9. For every representable \<open>x\<close> and every length \<open>n\<close>: \<open>bigval_to_binary\<close> fills
  the \<open>n\<close> bytes of the buffer, most significant byte first, with the two's complement
  bytes of \<open>x\<close> (so the value is cut to its low bytes when \<open>n\<close> is less than 36 and
  extended with its sign when \<open>n\<close> is more than 36), and \<open>binary_to_bigval\<close> over those \<open>n\<close>
  bytes gives \<open>x\<close> cut down to its \<open>n\<close> low-order bytes: a representable value equal to
  \<open>x\<close> modulo \<open>256 ^ n\<close>, and \<open>x\<close> itself as soon as \<open>n\<close> is at least 36.
\<close>

theorem C9_binary_roundtrip:
  assumes "bigval_ok x" "length tgt = n"
  shows "length (bigval_to_binary x tgt n) = n \<and>
         (\<forall>i<n. bigval_to_binary x tgt n ! (n - 1 - i) = big_val x div 256 ^ i mod 256) \<and>
         binary_to_bigval (bigval_to_binary x tgt n) n = bigval_truncate x n \<and>
         bigval_ok (binary_to_bigval (bigval_to_binary x tgt n) n) \<and>
         big_uval (binary_to_bigval (bigval_to_binary x tgt n) n) = big_val x mod 256 ^ min n 36 \<and>
         (36 \<le> n \<longrightarrow> binary_to_bigval (bigval_to_binary x tgt n) n = x)"
  using binary_roundtrip [OF assms] by blast

text \<open>
  The theorem at \<open>-1\<close> with two lengths: three bytes (the value comes back as \<open>0xffffff\<close>)
  and forty bytes (the value comes back unchanged).
\<close>

theorem C9_binary_roundtrip_witness:
  "bigval_ok big_minus_one \<and>
   length (replicate 3 (0::int)) = 3 \<and>
   big_uval (binary_to_bigval (bigval_to_binary big_minus_one (replicate 3 0) 3) 3) = 0xffffff \<and>
   length (replicate 40 (0::int)) = 40 \<and>
   binary_to_bigval (bigval_to_binary big_minus_one (replicate 40 0) 40) 40 = big_minus_one"
proof -
  have ok: "bigval_ok big_minus_one"
    by (simp add: bigval_ok_def big_minus_one_def)
  have v: "big_val big_minus_one = - 1"
    by (simp add: big_val_def big_minus_one_def)
  have l3: "length (replicate 3 (0::int)) = 3" and l40: "length (replicate 40 (0::int)) = 40"
    by simp_all
  have "big_uval (binary_to_bigval (bigval_to_binary big_minus_one (replicate 3 0) 3) 3)
      = big_val big_minus_one mod 256 ^ min 3 36"
    using C9_binary_roundtrip [OF ok l3] by blast
  then have a: "big_uval (binary_to_bigval (bigval_to_binary big_minus_one (replicate 3 0) 3) 3)
      = 0xffffff"
    by (simp add: v)
  have "(36::nat) \<le> 40" by simp
  then have b: "binary_to_bigval (bigval_to_binary big_minus_one (replicate 40 0) 40) 40 = big_minus_one"
    using C9_binary_roundtrip [OF ok l40] by blast
  show ?thesis using ok a b by simp
qed

section \<open>Rule table\<close>

text \<open>
  \<^verbatim>\<open>RuleTable.h\<close> declares the table as \<^verbatim>\<open>std::multimap<BusEndpoint, Rule> rules\<close> and the
  operations \<^verbatim>\<open>AddRule\<close>, \<^verbatim>\<open>RemoveRule\<close>, \<^verbatim>\<open>RemoveAllRules\<close> and \<^verbatim>\<open>OkToSend\<close>. The
  multimap is an association list that may hold several rules under one endpoint. The
  endpoint type is opaque and only compared for equality. The mutex is not modelled: every
  operation below is one atomic step on the table.
\<close>

record message =
  msg_interface :: string
  msg_member :: string
  msg_path :: string
  msg_sender :: string

text \<open>
  Modelled from the spec: \<^verbatim>\<open>Rule.h\<close> is not among the sources. The specification calls a
  rule "an immutable match predicate over message attributes (interface, member, path,
  sender)". A rule names a required value for any of the four attributes; an attribute it
  does not name is not constrained.
\<close>

record rule =
  rule_interface :: "string option"
  rule_member :: "string option"
  rule_path :: "string option"
  rule_sender :: "string option"

definition attr_ok :: "string option \<Rightarrow> string \<Rightarrow> bool" where
  "attr_ok want have = (case want of None \<Rightarrow> True | Some s \<Rightarrow> s = have)"

definition IsMatch :: "rule \<Rightarrow> message \<Rightarrow> bool" where
  "IsMatch r m =
     (attr_ok (rule_interface r) (msg_interface m) \<and>
      attr_ok (rule_member r) (msg_member m) \<and>
      attr_ok (rule_path r) (msg_path m) \<and>
      attr_ok (rule_sender r) (msg_sender m))"

type_synonym 'e rule_table = "('e \<times> rule) list"

text \<open>
  Modelled from the spec: \<^verbatim>\<open>RuleTable.cc\<close>, which holds the bodies of the four operations,
  is not among the sources. They follow section 4.4 of the specification: \<open>AddRule\<close> inserts
  (several rules per endpoint are permitted), \<open>RemoveRule\<close> removes a single matching entry
  or reports that there is none, \<open>RemoveAllRules\<close> removes every rule of the endpoint, and
  \<open>OkToSend\<close> iterates the endpoint's rules and answers true as soon as one matches.
\<close>

definition AddRule :: "'e rule_table \<Rightarrow> 'e \<Rightarrow> rule \<Rightarrow> 'e rule_table" where
  "AddRule t endpoint r = t @ [(endpoint, r)]"

fun RemoveRule :: "'e rule_table \<Rightarrow> 'e \<Rightarrow> rule \<Rightarrow> ('e rule_table) option" where
  "RemoveRule [] endpoint r = None"
| "RemoveRule ((e, r') # t) endpoint r =
     (if e = endpoint \<and> r' = r then Some t
      else map_option (\<lambda>t'. (e, r') # t') (RemoveRule t endpoint r))"

fun RemoveAllRules :: "'e rule_table \<Rightarrow> 'e \<Rightarrow> 'e rule_table" where
  "RemoveAllRules [] endpoint = []"
| "RemoveAllRules ((e, r) # t) endpoint =
     (if e = endpoint then RemoveAllRules t endpoint else (e, r) # RemoveAllRules t endpoint)"

fun OkToSend :: "'e rule_table \<Rightarrow> message \<Rightarrow> 'e \<Rightarrow> bool" where
  "OkToSend [] msg endpoint = False"
| "OkToSend ((e, r) # t) msg endpoint =
     (if e = endpoint \<and> IsMatch r msg then True else OkToSend t msg endpoint)"

lemma OkToSend_iff:
  "OkToSend t msg endpoint \<longleftrightarrow> (\<exists>r. (endpoint, r) \<in> set t \<and> IsMatch r msg)"
proof (induction t)
  case Nil
  show ?case by simp
next
  case (Cons a t)
  obtain e r where a: "a = (e, r)" by (cases a)
  show ?case using Cons by (auto simp: a)
qed

lemma RemoveAllRules_filter:
  "RemoveAllRules t endpoint = filter (\<lambda>er. fst er \<noteq> endpoint) t"
proof (induction t)
  case Nil
  show ?case by simp
next
  case (Cons a t)
  obtain e r where a: "a = (e, r)" by (cases a)
  show ?case using Cons by (simp add: a)
qed

text \<open>
  Claim C8. For every rule table, message and endpoint, \<open>OkToSend\<close> answers true exactly
  when at least one rule registered for that endpoint matches the message; it answers false
  when no rule is registered for the endpoint, and after \<open>RemoveAllRules\<close> of the endpoint it
  answers false for every message to that endpoint.
\<close>

theorem C8_OkToSend:
  "(OkToSend t msg endpoint \<longleftrightarrow> (\<exists>r. (endpoint, r) \<in> set t \<and> IsMatch r msg)) \<and>
   (endpoint \<notin> fst ` set t \<longrightarrow> \<not> OkToSend t msg endpoint) \<and>
   \<not> OkToSend (RemoveAllRules t endpoint) msg endpoint"
proof (intro conjI impI)
  show "OkToSend t msg endpoint \<longleftrightarrow> (\<exists>r. (endpoint, r) \<in> set t \<and> IsMatch r msg)"
    by (rule OkToSend_iff)
next
  assume "endpoint \<notin> fst ` set t"
  then have "\<And>r. (endpoint, r) \<notin> set t"
    by (metis fst_conv image_eqI)
  then show "\<not> OkToSend t msg endpoint"
    by (simp add: OkToSend_iff)
next
  show "\<not> OkToSend (RemoveAllRules t endpoint) msg endpoint"
    by (simp add: OkToSend_iff RemoveAllRules_filter)
qed

text \<open>
  The scenario of the specification: one rule on the interface \<open>org.example.Foo\<close> for
  endpoint 1. A message on that interface may be sent to endpoint 1, no message may be sent
  to endpoint 2, and nothing may be sent to endpoint 1 once its rules are removed.
\<close>

definition foo_rule :: rule where
  "foo_rule = \<lparr>rule_interface = Some ''org.example.Foo'', rule_member = None,
     rule_path = None, rule_sender = None\<rparr>"

definition foo_msg :: message where
  "foo_msg = \<lparr>msg_interface = ''org.example.Foo'', msg_member = ''Ping'',
     msg_path = ''/org/example'', msg_sender = '':1.7''\<rparr>"

theorem C8_OkToSend_witness:
  "OkToSend (AddRule [] (1::nat) foo_rule) foo_msg 1 \<and>
   (\<exists>r. (1, r) \<in> set (AddRule [] (1::nat) foo_rule) \<and> IsMatch r foo_msg) \<and>
   2 \<notin> fst ` set (AddRule [] (1::nat) foo_rule) \<and>
   \<not> OkToSend (AddRule [] (1::nat) foo_rule) foo_msg 2 \<and>
   \<not> OkToSend (RemoveAllRules (AddRule [] (1::nat) foo_rule) 1) foo_msg 1"
proof -
  have h: "2 \<notin> fst ` set (AddRule [] (1::nat) foo_rule)"
    by (simp add: AddRule_def)
  have m: "OkToSend (AddRule [] (1::nat) foo_rule) foo_msg 1"
    by (simp add: AddRule_def foo_rule_def foo_msg_def IsMatch_def attr_ok_def)
  show ?thesis
    using h m C8_OkToSend [of "AddRule [] (1::nat) foo_rule" foo_msg 1]
      C8_OkToSend [of "AddRule [] (1::nat) foo_rule" foo_msg 2]
    by blast
qed

end
